theory Spec2Isabelle
  imports Complex_Main "HOL-Library.Word"
begin

section \<open>JavaScript values used by core.ts\<close>

text \<open>
  A JavaScript string is a sequence of 16-bit code units. ASCII literals of the source are
  written through \<open>u16\<close>; the two curly quotes of the speech prefix are the code units
  U+201C and U+201D.
\<close>

type_synonym jsstring = "16 word list"

definition u16 :: "string \<Rightarrow> jsstring" where
  "u16 s = map of_char s"

text \<open>
  \<open>String.prototype.trim\<close> strips the ECMAScript WhiteSpace and LineTerminator code
  units from both ends.
\<close>

definition isWhiteSpace :: "16 word \<Rightarrow> bool" where
  "isWhiteSpace c \<longleftrightarrow>
     c \<in> {0x09, 0x0A, 0x0B, 0x0C, 0x0D, 0x20, 0xA0, 0x1680,
          0x2028, 0x2029, 0x202F, 0x205F, 0x3000, 0xFEFF}
     \<or> (0x2000 \<le> c \<and> c \<le> 0x200A)"

definition trim :: "jsstring \<Rightarrow> jsstring" where
  "trim s = rev (dropWhile isWhiteSpace (rev (dropWhile isWhiteSpace s)))"

text \<open>
  The values \<open>JSON.parse\<close> can return. A number is kept as its literal, which determines
  the double; an object keeps its members in source order. \<open>undefined\<close> is \<open>None\<close> of
  \<open>json option\<close>.
\<close>

datatype json =
    JNull
  | JBool bool
  | JNum jsstring
  | JStr jsstring
  | JArr "json list"
  | JObj "(jsstring \<times> json) list"

datatype js_error = TypeError | SyntaxError

text \<open>
  \<open>JSON.parse\<close> rounds the number a literal denotes to the nearest double, ties to even.
  The result is zero exactly when the magnitude is at most \<open>2^-1075\<close>, half the least
  positive double. With \<open>m\<close> the digits of the integer part and of the fraction read as
  one natural number, \<open>k\<close> the number of fraction digits and \<open>e\<close> the exponent, the
  magnitude is \<open>m * 10^e / 10^k\<close>.
\<close>

definition is_digit :: "16 word \<Rightarrow> bool" where
  "is_digit c \<longleftrightarrow> 0x30 \<le> c \<and> c \<le> 0x39"

definition digits_value :: "jsstring \<Rightarrow> nat" where
  "digits_value ds = foldl (\<lambda>n c. 10 * n + unat (c - 0x30)) 0 ds"

definition num_is_zero :: "jsstring \<Rightarrow> bool" where
  "num_is_zero lexeme \<longleftrightarrow>
     (let body = (case lexeme of c # r \<Rightarrow> if c = 0x2D then r else lexeme | [] \<Rightarrow> lexeme);
          mant = takeWhile (\<lambda>c. c \<noteq> 0x65 \<and> c \<noteq> 0x45) body;
          ip = takeWhile is_digit mant;
          fp = drop 1 (dropWhile is_digit mant);
          ex = drop 1 (dropWhile (\<lambda>c. c \<noteq> 0x65 \<and> c \<noteq> 0x45) body);
          (eneg, ed) =
            (case ex of
               sg # d \<Rightarrow> if sg = 0x2D then (True, d) else if sg = 0x2B then (False, d) else (False, ex)
             | [] \<Rightarrow> (False, ex));
          m = digits_value (ip @ fp);
          k = length fp;
          e = digits_value ed
      in if eneg then m * 2 ^ 1075 \<le> 10 ^ (k + e)
         else m * 10 ^ e * 2 ^ 1075 \<le> 10 ^ k)"

fun truthy :: "json option \<Rightarrow> bool" where
  "truthy None = False"
| "truthy (Some JNull) = False"
| "truthy (Some (JBool b)) = b"
| "truthy (Some (JNum n)) = (\<not> num_is_zero n)"
| "truthy (Some (JStr s)) = (s \<noteq> [])"
| "truthy (Some (JArr xs)) = True"
| "truthy (Some (JObj kvs)) = True"

text \<open>\<open>a || b\<close> where \<open>b\<close> is a string constant.\<close>

definition js_or :: "json option \<Rightarrow> json \<Rightarrow> json" where
  "js_or a b = (if truthy a then the a else b)"

text \<open>
  \<open>b.name\<close>: reading a property of \<open>null\<close> throws a TypeError; an object yields its
  member (the last one wins when a key is repeated) or \<open>undefined\<close>; the other values have
  no property called \<open>text\<close> or \<open>category\<close>.
\<close>

fun get_prop :: "json \<Rightarrow> jsstring \<Rightarrow> js_error + json option" where
  "get_prop JNull name = Inl TypeError"
| "get_prop (JObj kvs) name = Inr (map_of (rev kvs) name)"
| "get_prop v name = Inr None"

section \<open>Text formatting\<close>

datatype TextBlockCategory =
  SPEECH | THOUGHT | BOX | NARRATION | SMALL_TEXT | SFX | SYSTEM | SCREAM | LINKED

text \<open>The string value of each member of the enum, as core.ts spells it.\<close>

fun category_value :: "TextBlockCategory \<Rightarrow> jsstring" where
  "category_value SPEECH = u16 ''speech''"
| "category_value THOUGHT = u16 ''thought''"
| "category_value BOX = u16 ''box''"
| "category_value NARRATION = u16 ''narration''"
| "category_value SMALL_TEXT = u16 ''small_text''"
| "category_value SFX = u16 ''SFX''"
| "category_value SYSTEM = u16 ''system''"
| "category_value SCREAM = u16 ''scream''"
| "category_value LINKED = u16 ''linked''"

text \<open>
  The values the instruction sent with every slice names for the field \<open>category\<close>:
  "Fields: text, category (speech, thought, box, narration, small_text, sfx, system,
  scream, linked)".
\<close>

definition prompt_categories :: "jsstring list" where
  "prompt_categories =
     map u16 [''speech'', ''thought'', ''box'', ''narration'', ''small_text'', ''sfx'',
              ''system'', ''scream'', ''linked'']"

text \<open>
  \<open>formatText\<close> receives values of type \<open>any\<close> from \<open>processManhwa\<close>. \<open>text.trim()\<close>
  throws a TypeError unless \<open>text\<close> is a string; the \<open>switch\<close> compares \<open>category\<close>
  with \<open>===\<close>, in the order of the source.
\<close>

definition formatText :: "json \<Rightarrow> json \<Rightarrow> js_error + jsstring" where
  "formatText text category =
     (case text of
        JStr s \<Rightarrow>
          (let t = trim s in
           if category = JStr (category_value SPEECH) then Inr ([0x201C, 0x201D] @ u16 '': '' @ t)
           else if category = JStr (category_value THOUGHT) then Inr (u16 ''(): '' @ t)
           else if category = JStr (category_value BOX) then Inr (u16 ''[]: '' @ t)
           else if category = JStr (category_value NARRATION) then Inr (u16 ''OT: '' @ t)
           else if category = JStr (category_value SMALL_TEXT) then Inr (u16 ''ST: '' @ t)
           else if category = JStr (category_value SYSTEM) then Inr (u16 ''{}: '' @ t)
           else if category = JStr (category_value SCREAM) then Inr (u16 '':: '' @ t)
           else if category = JStr (category_value LINKED) then Inr (u16 ''//: '' @ t)
           else if category = JStr (category_value SFX) then Inr (u16 ''SFX: '' @ t)
           else Inr t)
      | _ \<Rightarrow> Inl TypeError)"

text \<open>
  The body of the \<open>forEach\<close> callback of \<open>processManhwa\<close>: the text appended to
  \<open>output\<close> for one block.
\<close>

definition formatBlock :: "json \<Rightarrow> js_error + jsstring" where
  "formatBlock b =
     (case get_prop b (u16 ''text'') of
        Inl e \<Rightarrow> Inl e
      | Inr tx \<Rightarrow>
          (case get_prop b (u16 ''category'') of
             Inl e \<Rightarrow> Inl e
           | Inr cat \<Rightarrow>
               (case formatText (js_or tx (JStr [])) (js_or cat (JStr (category_value SPEECH))) of
                  Inl e \<Rightarrow> Inl e
                | Inr line \<Rightarrow> Inr (line @ [0x0A]))))"

fun formatOutput :: "json list \<Rightarrow> jsstring \<Rightarrow> js_error + jsstring" where
  "formatOutput [] output = Inr output"
| "formatOutput (b # bs) output =
     (case formatBlock b of
        Inl e \<Rightarrow> Inl e
      | Inr line \<Rightarrow> formatOutput bs (output @ line))"

section \<open>Slicing the image\<close>

text \<open>
  The canvas the image is drawn on: its size and the RGBA bytes of each pixel
  (column \<open>x\<close>, row \<open>y\<close>).
\<close>

type_synonym byte = "8 word"

record canvas =
  canvas_width :: nat
  canvas_height :: nat
  pixel :: "nat \<Rightarrow> nat \<Rightarrow> byte \<times> byte \<times> byte \<times> byte"

text \<open>
  \<open>ctx.getImageData(sx, sy, sw, sh).data\<close> for a rectangle of positive extent: a
  \<open>Uint8ClampedArray\<close> of \<open>sw * sh * 4\<close> bytes, row by row, four bytes a pixel; pixels
  outside the canvas read as transparent black. An index outside the array reads as
  \<open>undefined\<close>, which is \<open>None\<close>. A decoded image has positive width and height; for a
  rectangle without positive extent the array is taken to be empty.
\<close>

definition getImageData :: "canvas \<Rightarrow> int \<Rightarrow> int \<Rightarrow> int \<Rightarrow> int \<Rightarrow> int \<Rightarrow> byte option" where
  "getImageData ctx sx sy sw sh =
     (\<lambda>idx.
        if 0 < sw \<and> 0 < sh \<and> 0 \<le> idx \<and> idx < sw * sh * 4 then
          (let x = sx + (idx div 4) mod sw;
               y = sy + (idx div 4) div sw;
               (r, g, b, a) =
                 (if 0 \<le> x \<and> x < int (canvas_width ctx) \<and> 0 \<le> y \<and> y < int (canvas_height ctx)
                  then pixel ctx (nat x) (nat y) else (0, 0, 0, 0))
           in Some (if idx mod 4 = 0 then r else if idx mod 4 = 1 then g
                    else if idx mod 4 = 2 then b else a))
        else None)"

text \<open>
  A trace of the reads of the canvas, kept by the model beside the values the program
  computes: each call of \<open>getImageData\<close> with its arguments, and each row of a window
  that is scored. It is there so that "no scan is made" can be stated.
\<close>

datatype scan_event = GetImageData int int int int | RowScored int

text \<open>
  JavaScript numbers that hold integers (coordinates, heights, indices, row energies) are
  \<open>int\<close>; this is exact below \<open>2^53\<close>. Scores are \<open>real\<close> and computed exactly: the
  rounding of the division and of the factor 0.2 is left out, so between two rows whose
  scores differ by less than a rounding error the model and the program may pick different
  rows. A score that is \<open>NaN\<close> or infinite is \<open>None\<close>, and every comparison
  \<open>finalScore < minEnergy\<close> with such a score is false. \<open>MAX_VALUE\<close> is
  \<open>Number.MAX_VALUE\<close>.
\<close>

definition MAX_VALUE :: real where
  "MAX_VALUE = 2 ^ 1024 - 2 ^ 971"

text \<open>The inner loop \<open>for (let x = 0; x < width; x += 10)\<close> of one row.\<close>

function rowEnergyLoop :: "(int \<Rightarrow> byte option) \<Rightarrow> int \<Rightarrow> int \<Rightarrow> int \<Rightarrow> int option \<Rightarrow> int option" where
  "rowEnergyLoop data width y x rowEnergy =
     (if x < width then
        (let idx = (y * width + x) * 4 in
         rowEnergyLoop data width y (x + 10)
           (case (rowEnergy, data idx, data (idx + 1), data (idx + 2)) of
              (Some e, Some r, Some g, Some b) \<Rightarrow>
                (let distWhite = \<bar>255 - uint r\<bar> + \<bar>255 - uint g\<bar> + \<bar>255 - uint b\<bar>;
                     distBlack = uint r + uint g + uint b
                 in Some (e + min distWhite distBlack))
            | _ \<Rightarrow> None))
      else rowEnergy)"
  by pat_completeness auto
termination
  by (relation "measure (\<lambda>(data, width, y, x, rowEnergy). nat (width - x))") auto

declare rowEnergyLoop.simps [simp del]

text \<open>
  The score of row \<open>y\<close> of the window: \<open>(rowEnergy / (width/10)) + penalty\<close>. With
  \<open>width = 0\<close> the row energy is 0 and the quotient is \<open>0/0\<close>, which is \<open>NaN\<close>.
\<close>

definition finalScore :: "(int \<Rightarrow> byte option) \<Rightarrow> int \<Rightarrow> int \<Rightarrow> int \<Rightarrow> real option" where
  "finalScore data width scanH y =
     (let rowEnergy = rowEnergyLoop data width y 0 (Some 0);
          penalty = real_of_int (scanH - y) * 0.2
      in case rowEnergy of
           None \<Rightarrow> None
         | Some e \<Rightarrow>
             if width = 0 then None
             else Some (real_of_int e / (real_of_int width / 10) + penalty))"

text \<open>The outer loop \<open>for (let y = 0; y < scanH; y += 4)\<close>.\<close>

function scanRows ::
  "(int \<Rightarrow> byte option) \<Rightarrow> int \<Rightarrow> int \<Rightarrow> int \<Rightarrow> int \<Rightarrow> int \<Rightarrow> real \<Rightarrow> scan_event list \<Rightarrow> int \<times> scan_event list"
where
  "scanRows data width startScan scanH y bestY minEnergy trace =
     (if y < scanH then
        (case finalScore data width scanH y of
           Some s \<Rightarrow>
             if s < minEnergy
             then scanRows data width startScan scanH (y + 4) (startScan + y) s (trace @ [RowScored y])
             else scanRows data width startScan scanH (y + 4) bestY minEnergy (trace @ [RowScored y])
         | None \<Rightarrow> scanRows data width startScan scanH (y + 4) bestY minEnergy (trace @ [RowScored y]))
      else (bestY, trace))"
  by pat_completeness auto
termination
  by (relation "measure (\<lambda>(data, width, startScan, scanH, y, bestY, minEnergy, trace). nat (scanH - y))") auto

declare scanRows.simps [simp del]

definition findBestCutPosition :: "canvas \<Rightarrow> int \<Rightarrow> int \<Rightarrow> int \<Rightarrow> int \<Rightarrow> int \<times> scan_event list" where
  "findBestCutPosition ctx width currentY maxH minH =
     (let remaining = int (canvas_height ctx) - currentY in
      if remaining \<le> maxH then (remaining, [])
      else
        (let startScan = minH;
             endScan = maxH;
             scanH = endScan - startScan;
             data = getImageData ctx 0 (currentY + startScan) width scanH;
             bestY = endScan;
             minEnergy = MAX_VALUE
         in scanRows data width startScan scanH 0 bestY minEnergy
              [GetImageData 0 (currentY + startScan) width scanH]))"

definition MAX_SLICE :: int where
  "MAX_SLICE = 3000"

definition MIN_SLICE :: int where
  "MIN_SLICE = 1500"

text \<open>
  The loop \<open>while (currentY < image.height)\<close> of \<open>processManhwa\<close>. A slice is kept as its
  boundary \<open>(currentY, sliceH)\<close>; the JPEG encoding of its pixels is left to the canvas
  library.
\<close>

function sliceLoop ::
  "canvas \<Rightarrow> int \<Rightarrow> (int \<times> int) list \<Rightarrow> scan_event list \<Rightarrow> (int \<times> int) list \<times> scan_event list"
where
  "sliceLoop img currentY slices trace =
     (if currentY < int (canvas_height img) then
        (case findBestCutPosition img (int (canvas_width img)) currentY MAX_SLICE MIN_SLICE of
           (sliceH, events) \<Rightarrow>
             sliceLoop img (currentY + sliceH) (slices @ [(currentY, sliceH)]) (trace @ events))
      else (slices, trace))"
  by pat_completeness auto
termination
proof -
  have range: "min b s \<le> fst (scanRows data w s h y b m t)" if "0 \<le> y" for data w s h y b m t
    using that
  proof (induction data w s h y b m t rule: scanRows.induct)
    case (1 data width startScan scanH y bestY minEnergy trace)
    show ?case
    proof (cases "y < scanH")
      case False
      then show ?thesis by (subst scanRows.simps) simp
    next
      case True
      with 1 show ?thesis
        by (subst scanRows.simps) (auto simp: min_def split: option.splits if_splits)
    qed
  qed
  have pos: "0 < sliceH"
    if lt: "currentY < int (canvas_height img)"
      and cut: "(sliceH, events) = findBestCutPosition img (int (canvas_width img)) currentY MAX_SLICE MIN_SLICE"
    for img currentY sliceH events
  proof (cases "int (canvas_height img) - currentY \<le> MAX_SLICE")
    case True
    with cut lt show ?thesis by (simp add: findBestCutPosition_def Let_def)
  next
    case False
    let ?data = "getImageData img 0 (currentY + MIN_SLICE) (int (canvas_width img)) (MAX_SLICE - MIN_SLICE)"
    from False cut have "sliceH = fst (scanRows ?data (int (canvas_width img)) MIN_SLICE (MAX_SLICE - MIN_SLICE)
        0 MAX_SLICE MAX_VALUE [GetImageData 0 (currentY + MIN_SLICE) (int (canvas_width img)) (MAX_SLICE - MIN_SLICE)])"
      by (simp add: findBestCutPosition_def Let_def split: prod.splits) (metis fst_conv)
    with range [of 0 MAX_SLICE MIN_SLICE ?data "int (canvas_width img)" "MAX_SLICE - MIN_SLICE" MAX_VALUE
        "[GetImageData 0 (currentY + MIN_SLICE) (int (canvas_width img)) (MAX_SLICE - MIN_SLICE)]"]
    show ?thesis by (simp add: MAX_SLICE_def MIN_SLICE_def)
  qed
  show ?thesis
    by (relation "measure (\<lambda>(img, currentY, slices, trace). nat (int (canvas_height img) - currentY))")
       (auto dest: pos)
qed

declare sliceLoop.simps [simp del]

section \<open>Decoding the extraction response\<close>

text \<open>
  \<open>txt.replace(/```json|```/g, '')\<close>: every match is removed, scanning from the left,
  the longer alternative first.
\<close>

fun strip_fences :: "jsstring \<Rightarrow> jsstring" where
  "strip_fences [] = []"
| "strip_fences (c # cs) =
     (if take 7 (c # cs) = [0x60, 0x60, 0x60] @ u16 ''json'' then strip_fences (drop 6 cs)
      else if take 3 (c # cs) = [0x60, 0x60, 0x60] then strip_fences (drop 2 cs)
      else c # strip_fences cs)"

text \<open>
  \<open>JSON.parse\<close> as a recursive-descent parser of the JSON grammar (ECMA-404). \<open>None\<close>
  is the SyntaxError it throws. The parser of values carries a recursion budget;
  \<open>JSON_parse\<close> starts it with twice the length of the text plus two, which is always
  enough (lemma \<open>JSON_parse_budget\<close>).
\<close>

definition json_ws :: "16 word \<Rightarrow> bool" where
  "json_ws c \<longleftrightarrow> c \<in> {0x20, 0x09, 0x0A, 0x0D}"

definition hex_digit :: "16 word \<Rightarrow> 16 word option" where
  "hex_digit c =
     (if 0x30 \<le> c \<and> c \<le> 0x39 then Some (c - 0x30)
      else if 0x41 \<le> c \<and> c \<le> 0x46 then Some (c - 0x41 + 10)
      else if 0x61 \<le> c \<and> c \<le> 0x66 then Some (c - 0x61 + 10)
      else None)"

definition hex4 :: "jsstring \<Rightarrow> 16 word option" where
  "hex4 hs =
     (case map hex_digit hs of
        [Some a, Some b, Some c, Some d] \<Rightarrow> Some (a * 0x1000 + b * 0x100 + c * 0x10 + d)
      | _ \<Rightarrow> None)"

text \<open>The characters of a string literal after its opening quote.\<close>

fun parse_string :: "jsstring \<Rightarrow> jsstring \<Rightarrow> (jsstring \<times> jsstring) option" where
  "parse_string [] acc = None"
| "parse_string (c # cs) acc =
     (if c = 0x22 then Some (rev acc, cs)
      else if c = 0x5C then
        (case cs of
           [] \<Rightarrow> None
         | e # r \<Rightarrow>
             if e = 0x22 \<or> e = 0x5C \<or> e = 0x2F then parse_string r (e # acc)
             else if e = 0x62 then parse_string r (0x08 # acc)
             else if e = 0x66 then parse_string r (0x0C # acc)
             else if e = 0x6E then parse_string r (0x0A # acc)
             else if e = 0x72 then parse_string r (0x0D # acc)
             else if e = 0x74 then parse_string r (0x09 # acc)
             else if e = 0x75 \<and> 4 \<le> length r then
               (case hex4 (take 4 r) of
                  None \<Rightarrow> None
                | Some u \<Rightarrow> parse_string (drop 4 r) (u # acc))
             else None)
      else if c < 0x20 then None
      else parse_string cs (c # acc))"

text \<open>
  A number literal: an optional minus, an integer part without a leading zero, an
  optional fraction and an optional exponent.
\<close>

definition parse_digits :: "jsstring \<Rightarrow> (jsstring \<times> jsstring) option" where
  "parse_digits cs =
     (let ds = takeWhile is_digit cs in
      if ds = [] then None else Some (ds, dropWhile is_digit cs))"

definition parse_number :: "jsstring \<Rightarrow> (jsstring \<times> jsstring) option" where
  "parse_number cs =
     (let (sign, r0) = (case cs of c # r \<Rightarrow> if c = 0x2D then ([c], r) else ([], cs) | [] \<Rightarrow> ([], cs)) in
      case parse_digits r0 of
        None \<Rightarrow> None
      | Some (ip, r1) \<Rightarrow>
          if 1 < length ip \<and> hd ip = 0x30 then None
          else
            (let fracp =
               (case r1 of
                  c # r \<Rightarrow>
                    if c = 0x2E then
                      (case parse_digits r of None \<Rightarrow> None | Some (fd, r2) \<Rightarrow> Some (c # fd, r2))
                    else Some ([], r1)
                | [] \<Rightarrow> Some ([], r1))
             in case fracp of
                  None \<Rightarrow> None
                | Some (fp, r2) \<Rightarrow>
                    (case r2 of
                       c # r \<Rightarrow>
                         if c = 0x65 \<or> c = 0x45 then
                           (let (es, r3) =
                              (case r of s # r' \<Rightarrow> if s = 0x2B \<or> s = 0x2D then ([s], r') else ([], r)
                               | [] \<Rightarrow> ([], r))
                            in case parse_digits r3 of
                                 None \<Rightarrow> None
                               | Some (ed, r4) \<Rightarrow> Some (sign @ ip @ fp @ [c] @ es @ ed, r4))
                         else Some (sign @ ip @ fp, r2)
                     | [] \<Rightarrow> Some (sign @ ip @ fp, r2))))"

text \<open>A string, a literal name or a number.\<close>

definition parse_scalar :: "jsstring \<Rightarrow> (json \<times> jsstring) option" where
  "parse_scalar cs =
     (case cs of
        [] \<Rightarrow> None
      | c # r \<Rightarrow>
          if c = 0x22 then
            (case parse_string r [] of None \<Rightarrow> None | Some (s, r') \<Rightarrow> Some (JStr s, r'))
          else if take 4 cs = u16 ''true'' then Some (JBool True, drop 4 cs)
          else if take 5 cs = u16 ''false'' then Some (JBool False, drop 5 cs)
          else if take 4 cs = u16 ''null'' then Some (JNull, drop 4 cs)
          else
            (case parse_number cs of None \<Rightarrow> None | Some (l, r') \<Rightarrow> Some (JNum l, r')))"

text \<open>The name of a member and the colon after it.\<close>

definition parse_key :: "jsstring \<Rightarrow> (jsstring \<times> jsstring) option" where
  "parse_key cs =
     (case dropWhile json_ws cs of
        [] \<Rightarrow> None
      | q # r0 \<Rightarrow>
          if q \<noteq> 0x22 then None
          else
            (case parse_string r0 [] of
               None \<Rightarrow> None
             | Some (k, r1) \<Rightarrow>
                 (case dropWhile json_ws r1 of
                    [] \<Rightarrow> None
                  | col # r2 \<Rightarrow> if col \<noteq> 0x3A then None else Some (k, r2))))"

fun parse_value :: "nat \<Rightarrow> jsstring \<Rightarrow> (json \<times> jsstring) option"
  and parse_elements :: "nat \<Rightarrow> jsstring \<Rightarrow> json list \<Rightarrow> (json \<times> jsstring) option"
  and parse_members :: "nat \<Rightarrow> jsstring \<Rightarrow> (jsstring \<times> json) list \<Rightarrow> (json \<times> jsstring) option"
where
  "parse_value 0 cs = None"
| "parse_value (Suc n) cs =
     (case dropWhile json_ws cs of
        [] \<Rightarrow> None
      | c # r \<Rightarrow>
          if c = 0x7B then
            (case dropWhile json_ws r of
               [] \<Rightarrow> None
             | d # r' \<Rightarrow> if d = 0x7D then Some (JObj [], r') else parse_members n (d # r') [])
          else if c = 0x5B then
            (case dropWhile json_ws r of
               [] \<Rightarrow> None
             | d # r' \<Rightarrow> if d = 0x5D then Some (JArr [], r') else parse_elements n (d # r') [])
          else parse_scalar (c # r))"
| "parse_elements 0 cs acc = None"
| "parse_elements (Suc n) cs acc =
     (case parse_value n cs of
        None \<Rightarrow> None
      | Some (v, r) \<Rightarrow>
          (case dropWhile json_ws r of
             [] \<Rightarrow> None
           | c # r' \<Rightarrow>
               if c = 0x2C then parse_elements n r' (acc @ [v])
               else if c = 0x5D then Some (JArr (acc @ [v]), r')
               else None))"
| "parse_members 0 cs acc = None"
| "parse_members (Suc n) cs acc =
     (case parse_key cs of
        None \<Rightarrow> None
      | Some (k, r) \<Rightarrow>
          (case parse_value n r of
             None \<Rightarrow> None
           | Some (v, r') \<Rightarrow>
               (case dropWhile json_ws r' of
                  [] \<Rightarrow> None
                | c # r'' \<Rightarrow>
                    if c = 0x2C then parse_members n r'' (acc @ [(k, v)])
                    else if c = 0x7D then Some (JObj (acc @ [(k, v)]), r'')
                    else None)))"

definition JSON_parse :: "jsstring \<Rightarrow> json option" where
  "JSON_parse s =
     (case parse_value (2 * length s + 2) s of
        None \<Rightarrow> None
      | Some (v, r) \<Rightarrow> if dropWhile json_ws r = [] then Some v else None)"

section \<open>Dispatching slices with key rotation\<close>

text \<open>
  One call of the extraction service. \<open>CallFails\<close>: \<open>generateContent\<close> rejects, or
  reading the text of the response throws; both are caught by the same \<open>catch\<close>.
  \<open>Response None\<close>: the response has no \<open>text\<close>. \<open>Response (Some s)\<close>:
  \<open>response.text()\<close> is the string \<open>s\<close>.

  The service is outside the program. It is a parameter of the model: a function of the
  slice index and the attempt counter (each pair occurs at most once in a run, so this is
  every possible behaviour of the service), of the key and of the slice sent.
\<close>

datatype api_result = CallFails | Response "jsstring option"

type_synonym 's service = "nat \<Rightarrow> nat \<Rightarrow> jsstring \<Rightarrow> 's \<Rightarrow> api_result"

text \<open>
  What \<open>console.warn\<close> and \<open>console.error\<close> print: the last four code units of the
  key and the number of the slice.
\<close>

datatype console_line = Warn jsstring nat | Error nat

text \<open>
  The state of part B of \<open>processManhwa\<close>: \<open>allBlocks\<close>, the calls made to the service
  (slice index, attempt counter, key index, key) and the console.
\<close>

record dispatch =
  allBlocks :: "json list"
  requests :: "(nat \<times> nat \<times> nat \<times> jsstring) list"
  console :: "console_line list"

definition caught :: "jsstring \<Rightarrow> nat \<Rightarrow> dispatch \<Rightarrow> dispatch" where
  "caught currentKey i st =
     st\<lparr>console := console st @ [Warn (drop (length currentKey - 4) currentKey) (i + 1)]\<rparr>"

text \<open>
  The statements of the \<open>try\<close> block up to \<open>JSON.parse\<close>. \<open>None\<close>: one of them
  threw and control is in the \<open>catch\<close>; \<open>Some blocks\<close>: the value parsed.
\<close>

definition decode_response :: "api_result \<Rightarrow> json option" where
  "decode_response response =
     (case response of
        CallFails \<Rightarrow> None
      | Response t \<Rightarrow>
          (let txt = (case t of None \<Rightarrow> u16 ''[]'' | Some s \<Rightarrow> s);
               jsonStr = trim (strip_fences txt)
           in JSON_parse jsonStr))"

text \<open>
  \<open>if (Array.isArray(blocks)) allBlocks.push(...blocks)\<close>. The limit an engine puts on the
  number of arguments of one call is not modelled.
\<close>

definition push_blocks :: "json \<Rightarrow> dispatch \<Rightarrow> dispatch" where
  "push_blocks blocks st =
     (case blocks of JArr bs \<Rightarrow> st\<lparr>allBlocks := allBlocks st @ bs\<rparr> | _ \<Rightarrow> st)"

text \<open>The failover loop \<open>while (!success && attempts < apiKeys.length)\<close> for slice \<open>i\<close>.\<close>

function failover ::
  "'s service \<Rightarrow> jsstring list \<Rightarrow> 's list \<Rightarrow> nat \<Rightarrow> bool \<Rightarrow> nat \<Rightarrow> dispatch \<Rightarrow> bool \<times> nat \<times> dispatch"
where
  "failover svc apiKeys slices i success attempts st =
     (if \<not> success \<and> attempts < length apiKeys then
        (let keyIndex = (i + attempts) mod length apiKeys;
             currentKey = apiKeys ! keyIndex;
             st1 = st\<lparr>requests := requests st @ [(i, attempts, keyIndex, currentKey)]\<rparr>
         in case decode_response (svc i attempts currentKey (slices ! i)) of
              Some blocks \<Rightarrow> failover svc apiKeys slices i True attempts (push_blocks blocks st1)
            | None \<Rightarrow> failover svc apiKeys slices i success (attempts + 1) (caught currentKey i st1))
      else (success, attempts, st))"
  by pat_completeness auto
termination
  by (relation "measure (\<lambda>(svc, apiKeys, slices, i, success, attempts, st).
        (length apiKeys - attempts) + (if success then 0 else 1))") auto

declare failover.simps [simp del]

text \<open>The loop \<open>for (let i = 0; i < slices.length; i++)\<close>.\<close>

function processSlices ::
  "'s service \<Rightarrow> jsstring list \<Rightarrow> 's list \<Rightarrow> nat \<Rightarrow> dispatch \<Rightarrow> dispatch"
where
  "processSlices svc apiKeys slices i st =
     (if i < length slices then
        (case failover svc apiKeys slices i False 0 st of
           (success, attempts, st') \<Rightarrow>
             processSlices svc apiKeys slices (i + 1)
               (if \<not> success then st'\<lparr>console := console st' @ [Error (i + 1)]\<rparr> else st'))
      else st)"
  by pat_completeness auto
termination
  by (relation "measure (\<lambda>(svc, apiKeys, slices, i, st). length slices - i)") auto

declare processSlices.simps [simp del]

definition dispatch0 :: dispatch where
  "dispatch0 = \<lparr>allBlocks = [], requests = [], console = []\<rparr>"

section \<open>The whole run\<close>

text \<open>
  \<open>processManhwa\<close> once the image is loaded and drawn: slice, dispatch, format. The
  result is the text, or the error that rejects the promise.
\<close>

definition processManhwa ::
  "(int \<times> int) service \<Rightarrow> canvas \<Rightarrow> jsstring list \<Rightarrow> js_error + jsstring" where
  "processManhwa svc img apiKeys =
     (let slices = fst (sliceLoop img 0 [] []);
          st = processSlices svc apiKeys slices 0 dispatch0
      in formatOutput (allBlocks st) [])"

section \<open>Auxiliary definitions\<close>

text \<open>The calls of slice \<open>i\<close> with attempt counters from \<open>a\<close> up to \<open>n\<close>.\<close>

definition tried :: "jsstring list \<Rightarrow> nat \<Rightarrow> nat \<Rightarrow> nat \<Rightarrow> (nat \<times> nat \<times> nat \<times> jsstring) list" where
  "tried apiKeys i a n =
     map (\<lambda>b. (i, b, (i + b) mod length apiKeys, apiKeys ! ((i + b) mod length apiKeys))) [a..<n]"

text \<open>The elements a parsed value contributes to \<open>allBlocks\<close>.\<close>

definition elements :: "json \<Rightarrow> json list" where
  "elements blocks = (case blocks of JArr bs \<Rightarrow> bs | _ \<Rightarrow> [])"

text \<open>The number of calls made for slice \<open>i\<close>.\<close>

definition calls_made :: "'s service \<Rightarrow> jsstring list \<Rightarrow> 's list \<Rightarrow> nat \<Rightarrow> nat" where
  "calls_made svc apiKeys slices i =
     (case failover svc apiKeys slices i False 0 dispatch0 of
        (success, attempts, st) \<Rightarrow> if success then attempts + 1 else attempts)"

text \<open>
  A list of boundaries that starts at row \<open>y\<close>, is contiguous, ends at row \<open>H\<close>, and
  whose heights are positive, at most \<open>MAX_SLICE\<close> and, except for the last one, at least
  \<open>MIN_SLICE\<close>.
\<close>

fun chain :: "int \<Rightarrow> int \<Rightarrow> (int \<times> int) list \<Rightarrow> bool" where
  "chain H y [] = (y = H)"
| "chain H y (b # bs) =
     (fst b = y \<and> 0 < snd b \<and> snd b \<le> MAX_SLICE \<and> (bs \<noteq> [] \<longrightarrow> MIN_SLICE \<le> snd b)
      \<and> chain H (y + snd b) bs)"

text \<open>The last row the scan evaluates when it starts at row \<open>y\<close> of a window of \<open>scanH\<close> rows.\<close>

definition last_row :: "int \<Rightarrow> int \<Rightarrow> int" where
  "last_row scanH y = y + 4 * ((scanH - 1 - y) div 4)"

subsection \<open>Examples\<close>

text \<open>
  Two pages of width 1 and height 5000: a white one, and a grey one whose row 1500 alone
  is white.
\<close>

definition page_white :: canvas where
  "page_white = \<lparr>canvas_width = 1, canvas_height = 5000, pixel = (\<lambda>x y. (255, 255, 255, 255))\<rparr>"

definition page_seam :: canvas where
  "page_seam = \<lparr>canvas_width = 1, canvas_height = 5000,
      pixel = (\<lambda>x y. if y = 1500 then (255, 255, 255, 255) else (128, 128, 128, 255))\<rparr>"

text \<open>
  Three slices and two keys. Every call for slice 0 fails; the first attempt for slice 1
  is answered with text that is not JSON and the second with an object; slice 2 is
  answered with a list on its first attempt.
\<close>

definition keys2 :: "jsstring list" where
  "keys2 = [u16 ''key-AAAA'', u16 ''key-BBBB'']"

definition svc_mixed :: "'s service" where
  "svc_mixed i a key d =
     (if i = 0 then CallFails
      else if i = 1 then
        (if a = 0 then Response (Some (u16 ''oops'')) else Response (Some (u16 ''{\"text\": \"x\"}'')))
      else Response (Some (u16 ''[{\"text\": \" hi \", \"category\": \"thought\"}]'')))"

text \<open>The same answers for slice 1, and a service that is down for every other slice.\<close>

definition svc_down :: "'s service" where
  "svc_down i a key d = (if i = 1 then svc_mixed i a key d else CallFails)"

text \<open>
  A service for the two slices of the white page: the first key fails for slice 0 and the
  second answers with a list; slice 1 is answered at once, with a fenced list.
\<close>

definition svc_page :: "'s service" where
  "svc_page i a key d =
     (if i = 0 then
        (if a = 0 then CallFails
         else Response (Some (u16 ''[{\"text\": \"Hi\", \"category\": \"speech\"}, {\"text\": \" BOOM \", \"category\": \"sfx\"}]'')))
      else Response (Some ([0x60, 0x60, 0x60] @ u16 ''json'' @ [0x0A]
             @ u16 ''[{\"text\": \" Hello \", \"category\": \"thought\"}]'' @ [0x0A] @ [0x60, 0x60, 0x60])))"

section \<open>Properties of the slicing\<close>

subsection \<open>The row scan\<close>

lemma scanRows_stop:
  "\<not> y < scanH \<Longrightarrow> scanRows data width startScan scanH y bestY minEnergy trace = (bestY, trace)"
  by (subst scanRows.simps) simp

lemma scanRows_better:
  "y < scanH \<Longrightarrow> finalScore data width scanH y = Some s \<Longrightarrow> s < minEnergy \<Longrightarrow>
   scanRows data width startScan scanH y bestY minEnergy trace =
     scanRows data width startScan scanH (y + 4) (startScan + y) s (trace @ [RowScored y])"
  by (subst scanRows.simps) simp

lemma scanRows_keep:
  "y < scanH \<Longrightarrow> (case finalScore data width scanH y of None \<Rightarrow> True | Some s \<Rightarrow> minEnergy \<le> s) \<Longrightarrow>
   scanRows data width startScan scanH y bestY minEnergy trace =
     scanRows data width startScan scanH (y + 4) bestY minEnergy (trace @ [RowScored y])"
  by (subst scanRows.simps) (simp split: option.splits)

lemma scanRows_cases:
  assumes "y < scanH"
  obtains (better) s where "finalScore data width scanH y = Some s" "s < minEnergy"
  | (keep) "case finalScore data width scanH y of None \<Rightarrow> True | Some s \<Rightarrow> minEnergy \<le> s"
proof (cases "finalScore data width scanH y")
  case None
  then show ?thesis by (intro keep) simp
next
  case (Some s)
  show ?thesis
  proof (cases "s < minEnergy")
    case True
    with Some show ?thesis by (intro better)
  next
    case False
    with Some show ?thesis by (intro keep) simp
  qed
qed

lemma scanRows_range:
  "fst (scanRows data width startScan scanH y bestY minEnergy trace) = bestY
   \<or> (startScan + y \<le> fst (scanRows data width startScan scanH y bestY minEnergy trace)
      \<and> fst (scanRows data width startScan scanH y bestY minEnergy trace) < startScan + scanH)"
proof (induction "nat (scanH - y)" arbitrary: y bestY minEnergy trace rule: less_induct)
  case less
  show ?case
  proof (cases "y < scanH")
    case False
    then show ?thesis by (simp add: scanRows_stop)
  next
    case True
    then have m: "nat (scanH - (y + 4)) < nat (scanH - y)" by simp
    from True show ?thesis
    proof (cases rule: scanRows_cases [where data = data and width = width and minEnergy = minEnergy])
      case (better s)
      with less [OF m, of "startScan + y" s "trace @ [RowScored y]"] True show ?thesis
        by (auto simp: scanRows_better)
    next
      case keep
      with less [OF m, of bestY minEnergy "trace @ [RowScored y]"] True show ?thesis
        by (auto simp: scanRows_keep)
    qed
  qed
qed

lemma scanRows_trace:
  "\<exists>rows. snd (scanRows data width startScan scanH y bestY minEnergy trace) = trace @ rows
     \<and> (y < scanH \<longrightarrow> rows \<noteq> [] \<and> hd rows = RowScored y)"
proof (induction "nat (scanH - y)" arbitrary: y bestY minEnergy trace rule: less_induct)
  case less
  show ?case
  proof (cases "y < scanH")
    case False
    then show ?thesis by (simp add: scanRows_stop)
  next
    case True
    then have m: "nat (scanH - (y + 4)) < nat (scanH - y)" by simp
    from True show ?thesis
    proof (cases rule: scanRows_cases [where data = data and width = width and minEnergy = minEnergy])
      case (better s)
      with less [OF m, of "startScan + y" s "trace @ [RowScored y]"] True show ?thesis
        by (auto simp: scanRows_better)
    next
      case keep
      with less [OF m, of bestY minEnergy "trace @ [RowScored y]"] True show ?thesis
        by (auto simp: scanRows_keep)
    qed
  qed
qed

lemma scanRows_unbeaten:
  assumes "\<And>y'. y \<le> y' \<Longrightarrow> y' < scanH \<Longrightarrow>
      (case finalScore data width scanH y' of None \<Rightarrow> True | Some s \<Rightarrow> minEnergy \<le> s)"
  shows "fst (scanRows data width startScan scanH y bestY minEnergy trace) = bestY"
  using assms
proof (induction "nat (scanH - y)" arbitrary: y trace rule: less_induct)
  case less
  show ?case
  proof (cases "y < scanH")
    case False
    then show ?thesis by (simp add: scanRows_stop)
  next
    case True
    then have m: "nat (scanH - (y + 4)) < nat (scanH - y)" by simp
    have "fst (scanRows data width startScan scanH (y + 4) bestY minEnergy (trace @ [RowScored y])) = bestY"
      by (rule less.hyps [OF m]) (rule less.prems, simp_all)
    with True less.prems [of y] show ?thesis
      by (simp add: scanRows_keep)
  qed
qed

lemma last_row_next: "y + 4 < scanH \<Longrightarrow> last_row scanH (y + 4) = last_row scanH y"
  unfolding last_row_def by presburger

lemma last_row_self: "y < scanH \<Longrightarrow> \<not> y + 4 < scanH \<Longrightarrow> last_row scanH y = y"
  unfolding last_row_def by presburger

lemma scanRows_decreasing:
  assumes "y < scanH"
    and "\<And>y'. y \<le> y' \<Longrightarrow> y' < scanH \<Longrightarrow> finalScore data width scanH y' = Some (f y')"
    and "\<And>y'. y \<le> y' \<Longrightarrow> y' + 4 < scanH \<Longrightarrow> f (y' + 4) < f y'"
    and "f y < minEnergy"
  shows "fst (scanRows data width startScan scanH y bestY minEnergy trace) = startScan + last_row scanH y"
  using assms
proof (induction "nat (scanH - y)" arbitrary: y bestY minEnergy trace rule: less_induct)
  case less
  have step: "scanRows data width startScan scanH y bestY minEnergy trace =
      scanRows data width startScan scanH (y + 4) (startScan + y) (f y) (trace @ [RowScored y])"
    using less.prems by (simp add: scanRows_better)
  show ?case
  proof (cases "y + 4 < scanH")
    case False
    with less.prems(1) show ?thesis
      by (simp add: step scanRows_stop last_row_self)
  next
    case True
    then have m: "nat (scanH - (y + 4)) < nat (scanH - y)" by simp
    have "fst (scanRows data width startScan scanH (y + 4) (startScan + y) (f y) (trace @ [RowScored y])) =
        startScan + last_row scanH (y + 4)"
    proof (rule less.hyps [OF m True])
      show "finalScore data width scanH y' = Some (f y')" if "y + 4 \<le> y'" "y' < scanH" for y'
        using that less.prems(2) [of y'] by simp
      show "f (y' + 4) < f y'" if "y + 4 \<le> y'" "y' + 4 < scanH" for y'
        using that less.prems(3) [of y'] by simp
      show "f (y + 4) < f y" using less.prems(3) [of y] True by simp
    qed
    with True show ?thesis by (simp add: step last_row_next)
  qed
qed

subsection \<open>The score of a row is a finite number\<close>

lemma getImageData_defined:
  assumes "0 < w" "0 \<le> y" "y < h" "0 \<le> x" "x < w" "0 \<le> k" "k < 4"
  shows "\<exists>v. getImageData ctx sx sy w h ((y * w + x) * 4 + k) = Some v"
proof -
  have "y * w + x < (y + 1) * w" using assms by (simp add: algebra_simps)
  also have "(y + 1) * w \<le> h * w" using assms by (intro mult_right_mono) simp_all
  finally have "y * w + x < w * h" by (simp add: mult.commute)
  then have "(y * w + x) * 4 + k < w * h * 4" using assms by simp
  moreover have "0 \<le> (y * w + x) * 4 + k" using assms by simp
  moreover have "0 < h" using assms by simp
  ultimately show ?thesis
    using assms(1) by (simp add: getImageData_def Let_def split: prod.splits)
qed

lemma pixel_energy_bound:
  fixes r g b :: byte
  shows "0 \<le> min (\<bar>255 - uint r\<bar> + \<bar>255 - uint g\<bar> + \<bar>255 - uint b\<bar>) (uint r + uint g + uint b)
       \<and> min (\<bar>255 - uint r\<bar> + \<bar>255 - uint g\<bar> + \<bar>255 - uint b\<bar>) (uint r + uint g + uint b) \<le> 382"
proof -
  have "uint r < 256" "uint g < 256" "uint b < 256"
    using uint_bounded [of r] uint_bounded [of g] uint_bounded [of b] by simp_all
  moreover have "0 \<le> uint r" "0 \<le> uint g" "0 \<le> uint b" by simp_all
  ultimately show ?thesis by (simp add: min_def abs_if)
qed

lemma rowEnergyLoop_bound:
  assumes "0 < w" "0 \<le> y" "y < h" "0 \<le> x" "0 \<le> e"
  shows "\<exists>e'. rowEnergyLoop (getImageData ctx sx sy w h) w y x (Some e) = Some e'
           \<and> 0 \<le> e' \<and> e' \<le> e + 39 * max 0 (w + 9 - x)"
  using assms
proof (induction "nat (w - x)" arbitrary: x e rule: less_induct)
  case less
  show ?case
  proof (cases "x < w")
    case False
    then show ?thesis using less.prems
      by (subst rowEnergyLoop.simps) simp
  next
    case True
    let ?d = "getImageData ctx sx sy w h"
    let ?idx = "(y * w + x) * 4"
    from getImageData_defined [of w y h x 0 ctx sx sy] less.prems True
    obtain r where r: "?d ?idx = Some r" by auto
    from getImageData_defined [of w y h x 1 ctx sx sy] less.prems True
    obtain g where g: "?d (?idx + 1) = Some g" by auto
    from getImageData_defined [of w y h x 2 ctx sx sy] less.prems True
    obtain b where b: "?d (?idx + 2) = Some b" by auto
    let ?pe = "min (\<bar>255 - uint r\<bar> + \<bar>255 - uint g\<bar> + \<bar>255 - uint b\<bar>) (uint r + uint g + uint b)"
    have pe: "0 \<le> ?pe" "?pe \<le> 382" using pixel_energy_bound [of r g b] by simp_all
    have step: "rowEnergyLoop ?d w y x (Some e) = rowEnergyLoop ?d w y (x + 10) (Some (e + ?pe))"
      by (subst rowEnergyLoop.simps) (simp only: True if_True Let_def r g b prod.case option.case)
    have m: "nat (w - (x + 10)) < nat (w - x)" using True by simp
    from less.hyps [OF m less.prems(1,2,3), of "e + ?pe"] less.prems pe
    obtain e' where e': "rowEnergyLoop ?d w y (x + 10) (Some (e + ?pe)) = Some e'"
      "0 \<le> e'" "e' \<le> e + ?pe + 39 * max 0 (w + 9 - (x + 10))"
      by auto
    have "e + ?pe + 39 * max 0 (w + 9 - (x + 10)) \<le> e + 39 * max 0 (w + 9 - x)"
      using True pe by (simp add: max_def)
    with e' step show ?thesis by auto
  qed
qed

lemma MAX_VALUE_large: "2 ^ 60 \<le> MAX_VALUE"
proof -
  have "MAX_VALUE = 2 ^ 971 * (2 ^ 53 - 1)"
    unfolding MAX_VALUE_def by (simp add: algebra_simps flip: power_add)
  moreover have "(2::real) ^ 60 \<le> 2 ^ 971" by (rule power_increasing) simp_all
  moreover have "(1::real) \<le> 2 ^ 53 - 1" by simp
  ultimately show ?thesis
    by (metis (no_types, opaque_lifting) mult.right_neutral mult_left_mono order_trans zero_le_numeral zero_le_power)
qed

lemma finalScore_first_row:
  assumes "0 < w" "0 < h" "h \<le> 2 ^ 53"
  shows "\<exists>s. finalScore (getImageData ctx sx sy w h) w h 0 = Some s \<and> s < MAX_VALUE"
proof -
  from rowEnergyLoop_bound [of w 0 h 0 0 ctx sx sy] assms
  obtain e where e: "rowEnergyLoop (getImageData ctx sx sy w h) w 0 0 (Some 0) = Some e"
    "0 \<le> e" "e \<le> 39 * (w + 9)"
    by (auto simp: max_def)
  have w1: "1 \<le> real_of_int w" using assms(1) by simp
  have "real_of_int e \<le> 39 * (real_of_int w + 9)" using e(3) by (simp flip: of_int_le_iff)
  also have "\<dots> \<le> 390 * real_of_int w" using w1 by simp
  finally have "real_of_int e / (real_of_int w / 10) \<le> 3900"
    using w1 by (simp add: field_simps)
  moreover have "real_of_int h \<le> 2 ^ 53" using assms(3) by (simp flip: of_int_le_iff)
  ultimately have "real_of_int e / (real_of_int w / 10) + real_of_int (h - 0) * 0.2 < 2 ^ 60"
    by simp
  with MAX_VALUE_large e(1) assms(1) show ?thesis
    by (simp add: finalScore_def Let_def)
qed

subsection \<open>One cut\<close>

lemma findBestCutPosition_rest:
  "int (canvas_height ctx) - currentY \<le> maxH \<Longrightarrow>
   findBestCutPosition ctx width currentY maxH minH = (int (canvas_height ctx) - currentY, [])"
  by (simp add: findBestCutPosition_def)

lemma findBestCutPosition_scan:
  "\<not> int (canvas_height ctx) - currentY \<le> maxH \<Longrightarrow>
   findBestCutPosition ctx width currentY maxH minH =
     scanRows (getImageData ctx 0 (currentY + minH) width (maxH - minH)) width minH (maxH - minH) 0
       maxH MAX_VALUE [GetImageData 0 (currentY + minH) width (maxH - minH)]"
  by (simp add: findBestCutPosition_def Let_def)

lemma findBestCutPosition_range:
  assumes "\<not> int (canvas_height ctx) - currentY \<le> maxH" "minH \<le> maxH"
  shows "minH \<le> fst (findBestCutPosition ctx width currentY maxH minH)
       \<and> fst (findBestCutPosition ctx width currentY maxH minH) \<le> maxH"
  using scanRows_range [of "getImageData ctx 0 (currentY + minH) width (maxH - minH)" width minH
      "maxH - minH" 0 maxH MAX_VALUE "[GetImageData 0 (currentY + minH) width (maxH - minH)]"] assms
  by (auto simp: findBestCutPosition_scan)

lemma findBestCutPosition_below_max:
  assumes scan: "\<not> int (canvas_height ctx) - currentY \<le> maxH"
    and w: "0 < width" and mm: "minH < maxH" and safe: "maxH - minH \<le> 2 ^ 53"
  shows "minH \<le> fst (findBestCutPosition ctx width currentY maxH minH)
       \<and> fst (findBestCutPosition ctx width currentY maxH minH) < maxH"
proof -
  let ?data = "getImageData ctx 0 (currentY + minH) width (maxH - minH)"
  let ?tr = "[GetImageData 0 (currentY + minH) width (maxH - minH)]"
  from finalScore_first_row [of width "maxH - minH" ctx 0 "currentY + minH"] w mm safe
  obtain s where s: "finalScore ?data width (maxH - minH) 0 = Some s" "s < MAX_VALUE"
    by auto
  have "findBestCutPosition ctx width currentY maxH minH =
      scanRows ?data width minH (maxH - minH) 4 (minH + 0) s (?tr @ [RowScored 0])"
    using scanRows_better [of 0 "maxH - minH" ?data width s MAX_VALUE minH maxH ?tr] s mm scan
    by (simp add: findBestCutPosition_scan)
  with scanRows_range [of ?data width minH "maxH - minH" 4 "minH + 0" s "?tr @ [RowScored 0]"] mm
  show ?thesis by auto
qed

subsection \<open>The slicing loop\<close>

lemma sliceLoop_stop:
  "\<not> currentY < int (canvas_height img) \<Longrightarrow> sliceLoop img currentY slices trace = (slices, trace)"
  by (subst sliceLoop.simps) simp

lemma sliceLoop_step:
  "currentY < int (canvas_height img) \<Longrightarrow>
   sliceLoop img currentY slices trace =
     sliceLoop img (currentY + fst (findBestCutPosition img (int (canvas_width img)) currentY MAX_SLICE MIN_SLICE))
       (slices @ [(currentY, fst (findBestCutPosition img (int (canvas_width img)) currentY MAX_SLICE MIN_SLICE))])
       (trace @ snd (findBestCutPosition img (int (canvas_width img)) currentY MAX_SLICE MIN_SLICE))"
  by (subst sliceLoop.simps) (simp split: prod.splits)

lemma sliceLoop_chain:
  assumes "currentY \<le> int (canvas_height img)"
  shows "\<exists>new. fst (sliceLoop img currentY slices trace) = slices @ new
           \<and> chain (int (canvas_height img)) currentY new"
  using assms
proof (induction "nat (int (canvas_height img) - currentY)" arbitrary: currentY slices trace rule: less_induct)
  case less
  let ?H = "int (canvas_height img)"
  let ?cut = "findBestCutPosition img (int (canvas_width img)) currentY MAX_SLICE MIN_SLICE"
  show ?case
  proof (cases "currentY < ?H")
    case False
    with less.prems show ?thesis by (simp add: sliceLoop_stop)
  next
    case True
    show ?thesis
    proof (cases "?H - currentY \<le> MAX_SLICE")
      case rest: True
      then have cut: "?cut = (?H - currentY, [])" by (rule findBestCutPosition_rest)
      have "fst (sliceLoop img currentY slices trace) = slices @ [(currentY, ?H - currentY)]"
        using True by (simp add: sliceLoop_step cut sliceLoop_stop)
      moreover have "chain ?H currentY [(currentY, ?H - currentY)]"
        using True rest by simp
      ultimately show ?thesis by blast
    next
      case scan: False
      from findBestCutPosition_range [OF scan, of MIN_SLICE "int (canvas_width img)"]
      have r: "MIN_SLICE \<le> fst ?cut" "fst ?cut \<le> MAX_SLICE"
        by (simp_all add: MAX_SLICE_def MIN_SLICE_def)
      then have pos: "0 < fst ?cut" by (simp add: MIN_SLICE_def)
      have le: "currentY + fst ?cut \<le> ?H" using r scan by simp
      have m: "nat (?H - (currentY + fst ?cut)) < nat (?H - currentY)" using pos True by simp
      from less.hyps [OF m le, of "slices @ [(currentY, fst ?cut)]" "trace @ snd ?cut"]
      obtain new where new: "fst (sliceLoop img (currentY + fst ?cut) (slices @ [(currentY, fst ?cut)]) (trace @ snd ?cut))
          = (slices @ [(currentY, fst ?cut)]) @ new" "chain ?H (currentY + fst ?cut) new"
        by blast
      have "fst (sliceLoop img currentY slices trace) = slices @ ((currentY, fst ?cut) # new)"
        using True new(1) by (simp add: sliceLoop_step)
      moreover have "chain ?H currentY ((currentY, fst ?cut) # new)"
        using new(2) r pos by simp
      ultimately show ?thesis by blast
    qed
  qed
qed

lemma chain_props:
  "chain H y bs \<Longrightarrow>
     (\<forall>k<length bs. fst (bs ! k) = y + sum_list (map snd (take k bs)))
   \<and> y + sum_list (map snd bs) = H
   \<and> (\<forall>k<length bs. 0 < snd (bs ! k) \<and> snd (bs ! k) \<le> MAX_SLICE)
   \<and> (\<forall>k. Suc k < length bs \<longrightarrow> MIN_SLICE \<le> snd (bs ! k))"
proof (induction bs arbitrary: y)
  case Nil
  then show ?case by simp
next
  case (Cons b bs)
  then have b: "fst b = y" "0 < snd b" "snd b \<le> MAX_SLICE" "bs \<noteq> [] \<longrightarrow> MIN_SLICE \<le> snd b"
    and rest: "chain H (y + snd b) bs" by simp_all
  note ih = Cons.IH [OF rest]
  have 1: "\<forall>k<length (b # bs). fst ((b # bs) ! k) = y + sum_list (map snd (take k (b # bs)))"
  proof (intro allI impI)
    fix k assume "k < length (b # bs)"
    then show "fst ((b # bs) ! k) = y + sum_list (map snd (take k (b # bs)))"
      using ih b by (cases k) (simp_all add: add.assoc)
  qed
  have 2: "y + sum_list (map snd (b # bs)) = H" using ih by (simp add: add.assoc)
  have 3: "\<forall>k<length (b # bs). 0 < snd ((b # bs) ! k) \<and> snd ((b # bs) ! k) \<le> MAX_SLICE"
  proof (intro allI impI)
    fix k assume "k < length (b # bs)"
    then show "0 < snd ((b # bs) ! k) \<and> snd ((b # bs) ! k) \<le> MAX_SLICE"
      using ih b by (cases k) simp_all
  qed
  have 4: "\<forall>k. Suc k < length (b # bs) \<longrightarrow> MIN_SLICE \<le> snd ((b # bs) ! k)"
  proof (intro allI impI)
    fix k assume "Suc k < length (b # bs)"
    then show "MIN_SLICE \<le> snd ((b # bs) ! k)"
      using ih b by (cases k) auto
  qed
  from 1 2 3 4 show ?case by blast
qed

subsection \<open>The two pages\<close>

lemma getImageData_at:
  assumes "0 < w" "0 \<le> y" "y < h" "0 \<le> x" "x < w" "0 \<le> k" "k < 4"
  shows "getImageData ctx sx sy w h ((y * w + x) * 4 + k) =
     (case (if 0 \<le> sx + x \<and> sx + x < int (canvas_width ctx) \<and> 0 \<le> sy + y \<and> sy + y < int (canvas_height ctx)
            then pixel ctx (nat (sx + x)) (nat (sy + y)) else (0, 0, 0, 0)) of
        (r, g, b, a) \<Rightarrow> Some (if k = 0 then r else if k = 1 then g else if k = 2 then b else a))"
proof -
  have "y * w + x < (y + 1) * w" using assms by (simp add: algebra_simps)
  also have "(y + 1) * w \<le> h * w" using assms by (intro mult_right_mono) simp_all
  finally have "y * w + x < w * h" by (simp add: mult.commute)
  then have in_range: "(y * w + x) * 4 + k < w * h * 4" "0 \<le> (y * w + x) * 4 + k" "0 < h"
    using assms by simp_all
  have "(n * 4 + k) div 4 = n \<and> (n * 4 + k) mod 4 = k" for n :: int
    using assms(6,7) by presburger
  then have d4: "((y * w + x) * 4 + k) div 4 = y * w + x" and m4: "((y * w + x) * 4 + k) mod 4 = k"
    by blast+
  have mw: "(y * w + x) mod w = x" using assms by simp
  have dw: "(y * w + x) div w = y" using assms by simp
  show ?thesis
    unfolding getImageData_def
    by (simp only: in_range assms(1) d4 m4 mw dw Let_def if_True simp_thms)
qed

lemma rowEnergyLoop_width1:
  "rowEnergyLoop data 1 y 0 (Some 0) =
     (case (data (y * 4), data (y * 4 + 1), data (y * 4 + 2)) of
        (Some r, Some g, Some b) \<Rightarrow>
          Some (min (\<bar>255 - uint r\<bar> + \<bar>255 - uint g\<bar> + \<bar>255 - uint b\<bar>) (uint r + uint g + uint b))
      | _ \<Rightarrow> None)"
  by (subst rowEnergyLoop.simps, subst rowEnergyLoop.simps)
     (simp add: Let_def split: option.splits)

lemma white_score:
  assumes "0 \<le> y" "y < 1500"
  shows "finalScore (getImageData page_white 0 sy 1 1500) 1 1500 y = Some (real_of_int (1500 - y) * 0.2)"
proof -
  have "getImageData page_white 0 sy 1 1500 (y * 4 + k) = Some (if 0 \<le> sy + y \<and> sy + y < 5000 then 255 else 0)"
    if "0 \<le> k" "k < 3" for k
    using getImageData_at [of 1 y 1500 0 k page_white 0 sy] assms that
    by (simp add: page_white_def)
  from this [of 0] this [of 1] this [of 2] show ?thesis
    by (simp add: finalScore_def rowEnergyLoop_width1)
qed

lemma seam_score:
  assumes "0 \<le> y" "y < 1500" "0 \<le> sy" "sy + y < 5000"
  shows "finalScore (getImageData page_seam 0 sy 1 1500) 1 1500 y =
     Some ((if sy + y = 1500 then 0 else 3810) + real_of_int (1500 - y) * 0.2)"
proof -
  have "getImageData page_seam 0 sy 1 1500 (y * 4 + k) = Some (if sy + y = 1500 then 255 else 128)"
    if "0 \<le> k" "k < 3" for k
    using getImageData_at [of 1 y 1500 0 k page_seam 0 sy] assms that
    by (auto simp: page_seam_def nat_eq_iff)
  from this [of 0] this [of 1] this [of 2] show ?thesis
    by (simp add: finalScore_def rowEnergyLoop_width1)
qed

lemma last_row_1500: "last_row 1500 0 = 1496"
  by (simp add: last_row_def)

lemma MAX_VALUE_gt: "x \<le> 2 ^ 59 \<Longrightarrow> x < MAX_VALUE"
  using MAX_VALUE_large by (simp add: order_less_le_trans)

lemma white_first_cut: "findBestCutPosition page_white 1 0 3000 1500 =
    scanRows (getImageData page_white 0 1500 1 1500) 1 1500 1500 0 3000 MAX_VALUE [GetImageData 0 1500 1 1500]"
  by (simp add: findBestCutPosition_def Let_def page_white_def)

lemma white_cut: "fst (findBestCutPosition page_white 1 0 3000 1500) = 2996"
proof -
  have "fst (scanRows (getImageData page_white 0 1500 1 1500) 1 1500 1500 0 3000 MAX_VALUE [GetImageData 0 1500 1 1500]) =
      1500 + last_row 1500 0"
  proof (rule scanRows_decreasing [where f = "\<lambda>y. real_of_int (1500 - y) * 0.2"])
    show "(0::int) < 1500" by simp
    show "finalScore (getImageData page_white 0 1500 1 1500) 1 1500 y' = Some (real_of_int (1500 - y') * 0.2)"
      if "0 \<le> y'" "y' < 1500" for y'
      using that by (rule white_score)
    show "real_of_int (1500 - (y' + 4)) * 0.2 < real_of_int (1500 - y') * 0.2" for y' :: int
      by simp
    show "real_of_int (1500 - 0) * 0.2 < MAX_VALUE"
      by (rule MAX_VALUE_gt) simp
  qed
  then show ?thesis by (simp add: white_first_cut last_row_1500)
qed

lemma white_slices: "fst (sliceLoop page_white 0 [] []) = [(0, 2996), (2996, 2004)]"
proof -
  have h: "int (canvas_height page_white) = 5000" "int (canvas_width page_white) = 1"
    by (simp_all add: page_white_def)
  have rest: "findBestCutPosition page_white 1 2996 3000 1500 = (2004, [])"
    using findBestCutPosition_rest [of page_white 2996 3000 1 1500] h by simp
  show ?thesis
    by (simp add: sliceLoop_step sliceLoop_stop h MAX_SLICE_def MIN_SLICE_def white_cut rest)
qed

lemma seam_cut1: "fst (findBestCutPosition page_seam 1 0 3000 1500) = 1500"
proof -
  let ?data = "getImageData page_seam 0 1500 1 1500"
  have s0: "finalScore ?data 1 1500 0 = Some 300"
    using seam_score [of 0 1500] by simp
  have "fst (scanRows ?data 1 1500 1500 4 (1500 + 0) 300 ([GetImageData 0 1500 1 1500] @ [RowScored 0])) = 1500 + 0"
  proof (rule scanRows_unbeaten)
    fix y' :: int
    assume "4 \<le> y'" "y' < 1500"
    then show "case finalScore ?data 1 1500 y' of None \<Rightarrow> True | Some s \<Rightarrow> 300 \<le> s"
      using seam_score [of y' 1500] by simp
  qed
  moreover have "scanRows ?data 1 1500 1500 0 3000 MAX_VALUE [GetImageData 0 1500 1 1500] =
      scanRows ?data 1 1500 1500 4 (1500 + 0) 300 ([GetImageData 0 1500 1 1500] @ [RowScored 0])"
    using scanRows_better [of 0 1500 ?data 1 300 MAX_VALUE 1500 3000 "[GetImageData 0 1500 1 1500]"]
    by (simp add: s0 MAX_VALUE_gt)
  ultimately show ?thesis
    by (simp add: findBestCutPosition_def Let_def page_seam_def)
qed

lemma seam_cut2: "fst (findBestCutPosition page_seam 1 1500 3000 1500) = 2996"
proof -
  let ?data = "getImageData page_seam 0 3000 1 1500"
  have "fst (scanRows ?data 1 1500 1500 0 3000 MAX_VALUE [GetImageData 0 3000 1 1500]) = 1500 + last_row 1500 0"
  proof (rule scanRows_decreasing [where f = "\<lambda>y. 3810 + real_of_int (1500 - y) * 0.2"])
    show "(0::int) < 1500" by simp
    show "finalScore ?data 1 1500 y' = Some (3810 + real_of_int (1500 - y') * 0.2)"
      if "0 \<le> y'" "y' < 1500" for y'
      using that seam_score [of y' 3000] by simp
    show "3810 + real_of_int (1500 - (y' + 4)) * 0.2 < 3810 + real_of_int (1500 - y') * 0.2" for y' :: int
      by simp
    show "3810 + real_of_int (1500 - 0) * 0.2 < MAX_VALUE"
      by (rule MAX_VALUE_gt) simp
  qed
  then show ?thesis
    by (simp add: findBestCutPosition_def Let_def page_seam_def last_row_1500)
qed

lemma seam_slices: "fst (sliceLoop page_seam 0 [] []) = [(0, 1500), (1500, 2996), (4496, 504)]"
proof -
  have h: "int (canvas_height page_seam) = 5000" "int (canvas_width page_seam) = 1"
    by (simp_all add: page_seam_def)
  have rest: "findBestCutPosition page_seam 1 4496 3000 1500 = (504, [])"
    using findBestCutPosition_rest [of page_seam 4496 3000 1 1500] h by simp
  show ?thesis
    by (simp add: sliceLoop_step sliceLoop_stop h MAX_SLICE_def MIN_SLICE_def seam_cut1 seam_cut2 rest)
qed

subsection \<open>Boundaries, single slices and cut heights\<close>

lemma chain_adjacent:
  "chain H y bs \<Longrightarrow> Suc k < length bs \<Longrightarrow> fst (bs ! Suc k) = fst (bs ! k) + snd (bs ! k)"
proof (induction bs arbitrary: y k)
  case Nil
  then show ?case by simp
next
  case (Cons b bs)
  then have rest: "chain H (y + snd b) bs" and b: "fst b = y" by simp_all
  show ?case
  proof (cases k)
    case 0
    with Cons.prems rest b show ?thesis by (cases bs) simp_all
  next
    case (Suc j)
    with Cons.prems Cons.IH [OF rest, of j] show ?thesis by simp
  qed
qed

lemma chain_le: "chain H y bs \<Longrightarrow> y \<le> H"
proof (induction bs arbitrary: y)
  case Nil
  then show ?case by simp
next
  case (Cons b bs)
  then have "0 < snd b" "chain H (y + snd b) bs" by simp_all
  with Cons.IH [of "y + snd b"] show ?case by simp
qed

lemma chain_within:
  "chain H y bs \<Longrightarrow> k < length bs \<Longrightarrow> y \<le> fst (bs ! k) \<and> fst (bs ! k) + snd (bs ! k) \<le> H"
proof (induction bs arbitrary: y k)
  case Nil
  then show ?case by simp
next
  case (Cons b bs)
  then have b: "fst b = y" "0 < snd b" and rest: "chain H (y + snd b) bs" by simp_all
  show ?case
  proof (cases k)
    case 0
    with chain_le [OF rest] b show ?thesis by simp
  next
    case (Suc j)
    with Cons.prems Cons.IH [OF rest, of j] b show ?thesis by simp
  qed
qed

lemma chain_cover:
  "chain H y bs \<Longrightarrow> y \<le> row \<Longrightarrow> row < H \<Longrightarrow>
   \<exists>!k. k < length bs \<and> fst (bs ! k) \<le> row \<and> row < fst (bs ! k) + snd (bs ! k)"
proof (induction bs arbitrary: y)
  case Nil
  then show ?case by simp
next
  case (Cons b bs)
  then have b: "fst b = y" "0 < snd b" and rest: "chain H (y + snd b) bs" by simp_all
  let ?in = "\<lambda>cs k. k < length cs \<and> fst (cs ! k) \<le> row \<and> row < fst (cs ! k) + snd (cs ! k)"
  show ?case
  proof (cases "row < y + snd b")
    case True
    have "?in (b # bs) 0" using True b Cons.prems by simp
    moreover have "k = 0" if "?in (b # bs) k" for k
    proof (cases k)
      case 0
      then show ?thesis .
    next
      case (Suc j)
      with that have "j < length bs" "fst (bs ! j) \<le> row" by simp_all
      with chain_within [OF rest, of j] True show ?thesis by simp
    qed
    ultimately show ?thesis by blast
  next
    case False
    then have "y + snd b \<le> row" by simp
    from Cons.IH [OF rest this Cons.prems(3)]
    obtain j where j: "?in bs j" and uniq: "\<And>j'. ?in bs j' \<Longrightarrow> j' = j" by blast
    have "?in (b # bs) (Suc j)" using j by simp
    moreover have "k = Suc j" if "?in (b # bs) k" for k
    proof (cases k)
      case 0
      with that b False show ?thesis by simp
    next
      case (Suc j')
      with that have "?in bs j'" by simp
      with uniq Suc show ?thesis by simp
    qed
    ultimately show ?thesis by blast
  qed
qed

text \<open>
  C1. The boundaries produced by the slicing loop of \<open>processManhwa\<close> (with
  \<open>MAX_SLICE = 3000\<close> and \<open>MIN_SLICE = 1500\<close>) start at row 0, each one starts where the
  previous one ends, and their heights are positive and sum to the height \<open>H\<close> of the
  image, so that every row of \<open>[0, H)\<close> lies in exactly one boundary. Every height is at
  most 3000 and every height but the last is at least 1500.
\<close>

theorem slices_cover_image:
  "(\<forall>k<length (fst (sliceLoop img 0 [] [])).
       fst (fst (sliceLoop img 0 [] []) ! k) = sum_list (map snd (take k (fst (sliceLoop img 0 [] [])))))
   \<and> (\<forall>k. Suc k < length (fst (sliceLoop img 0 [] [])) \<longrightarrow>
         fst (fst (sliceLoop img 0 [] []) ! Suc k) =
           fst (fst (sliceLoop img 0 [] []) ! k) + snd (fst (sliceLoop img 0 [] []) ! k))
   \<and> sum_list (map snd (fst (sliceLoop img 0 [] []))) = int (canvas_height img)
   \<and> (\<forall>row. 0 \<le> row \<and> row < int (canvas_height img) \<longrightarrow>
         (\<exists>!k. k < length (fst (sliceLoop img 0 [] []))
               \<and> fst (fst (sliceLoop img 0 [] []) ! k) \<le> row
               \<and> row < fst (fst (sliceLoop img 0 [] []) ! k) + snd (fst (sliceLoop img 0 [] []) ! k)))
   \<and> (\<forall>k<length (fst (sliceLoop img 0 [] [])).
         0 < snd (fst (sliceLoop img 0 [] []) ! k) \<and> snd (fst (sliceLoop img 0 [] []) ! k) \<le> 3000)
   \<and> (\<forall>k. Suc k < length (fst (sliceLoop img 0 [] [])) \<longrightarrow> 1500 \<le> snd (fst (sliceLoop img 0 [] []) ! k))"
proof -
  from sliceLoop_chain [of 0 img "[]" "[]"]
  have c: "chain (int (canvas_height img)) 0 (fst (sliceLoop img 0 [] []))" by auto
  have cover: "\<forall>row. 0 \<le> row \<and> row < int (canvas_height img) \<longrightarrow>
         (\<exists>!k. k < length (fst (sliceLoop img 0 [] []))
               \<and> fst (fst (sliceLoop img 0 [] []) ! k) \<le> row
               \<and> row < fst (fst (sliceLoop img 0 [] []) ! k) + snd (fst (sliceLoop img 0 [] []) ! k))"
    using chain_cover [OF c] by blast
  from chain_props [OF c] chain_adjacent [OF c] cover show ?thesis
    by (simp add: MAX_SLICE_def MIN_SLICE_def)
qed

theorem slices_cover_image_witness:
  "fst (sliceLoop page_white 0 [] []) = [(0, 2996), (2996, 2004)]
   \<and> int (canvas_height page_white) = 2996 + 2004
   \<and> (1500::int) \<le> snd (fst (sliceLoop page_white 0 [] []) ! 0)
   \<and> (\<exists>!k. k < length (fst (sliceLoop page_white 0 [] []))
          \<and> fst (fst (sliceLoop page_white 0 [] []) ! k) \<le> 2996
          \<and> 2996 < fst (fst (sliceLoop page_white 0 [] []) ! k) + snd (fst (sliceLoop page_white 0 [] []) ! k))"
proof -
  have len: "Suc 0 < length (fst (sliceLoop page_white 0 [] []))"
    by (simp add: white_slices)
  have row: "(0::int) \<le> 2996 \<and> 2996 < int (canvas_height page_white)"
    by (simp add: page_white_def)
  note t = slices_cover_image [of page_white]
  from t row have "\<exists>!k. k < length (fst (sliceLoop page_white 0 [] []))
          \<and> fst (fst (sliceLoop page_white 0 [] []) ! k) \<le> 2996
          \<and> 2996 < fst (fst (sliceLoop page_white 0 [] []) ! k) + snd (fst (sliceLoop page_white 0 [] []) ! k)"
    by blast
  moreover from t len have "int (canvas_height page_white) = 2996 + 2004
      \<and> (1500::int) \<le> snd (fst (sliceLoop page_white 0 [] []) ! 0)"
    by (simp add: white_slices)
  ultimately show ?thesis by (simp only: white_slices simp_thms)
qed

text \<open>
  C8. When what remains of the image is at most \<open>maxH\<close>, \<open>findBestCutPosition\<close> returns it
  at once: no \<open>getImageData\<close> call is made and no row is scored. For an image of positive
  height at most \<open>MAX_SLICE\<close> the slicing loop therefore produces the single boundary
  \<open>(0, H)\<close> and its trace of canvas reads is empty.
\<close>

theorem short_image_single_slice:
  "(int (canvas_height ctx) - currentY \<le> maxH \<longrightarrow>
      findBestCutPosition ctx width currentY maxH minH = (int (canvas_height ctx) - currentY, []))
   \<and> (0 < canvas_height img \<and> int (canvas_height img) \<le> MAX_SLICE \<longrightarrow>
      sliceLoop img 0 [] [] = ([(0, int (canvas_height img))], []))"
proof (intro conjI impI)
  assume "int (canvas_height ctx) - currentY \<le> maxH"
  then show "findBestCutPosition ctx width currentY maxH minH = (int (canvas_height ctx) - currentY, [])"
    by (rule findBestCutPosition_rest)
next
  assume a: "0 < canvas_height img \<and> int (canvas_height img) \<le> MAX_SLICE"
  then have "findBestCutPosition img (int (canvas_width img)) 0 MAX_SLICE MIN_SLICE = (int (canvas_height img), [])"
    using findBestCutPosition_rest [of img 0 MAX_SLICE] by simp
  with a show "sliceLoop img 0 [] [] = ([(0, int (canvas_height img))], [])"
    by (simp add: sliceLoop_step sliceLoop_stop)
qed

theorem short_image_single_slice_witness:
  "findBestCutPosition page_white 1 2996 3000 1500 = (2004, [])
   \<and> sliceLoop (page_white\<lparr>canvas_height := 3000\<rparr>) 0 [] [] = ([(0, 3000)], [])"
proof -
  have "int (canvas_height page_white) - 2996 \<le> 3000" by (simp add: page_white_def)
  with short_image_single_slice [of page_white 2996 3000 1 1500 "page_white\<lparr>canvas_height := 3000\<rparr>"]
  show ?thesis by (simp add: page_white_def MAX_SLICE_def)
qed

text \<open>
  C10. When a scan is performed (what remains exceeds \<open>maxH\<close>) on an image of positive
  width with \<open>minH < maxH\<close>, the window being no taller than \<open>2^53\<close> rows (so that its
  height is an exact JavaScript number), the first row of the window has a finite score
  below \<open>Number.MAX_VALUE\<close>. It replaces the initial \<open>bestY = maxH\<close>, and the height
  returned lies in \<open>[minH, maxH)\<close>.
\<close>

theorem scan_cut_below_max:
  assumes "0 < width" and "minH < maxH" and "maxH - minH \<le> 2 ^ 53"
    and "maxH < int (canvas_height ctx) - currentY"
  shows "(\<exists>s. finalScore (getImageData ctx 0 (currentY + minH) width (maxH - minH)) width (maxH - minH) 0 = Some s
            \<and> s < MAX_VALUE)
       \<and> hd (snd (findBestCutPosition ctx width currentY maxH minH)) = GetImageData 0 (currentY + minH) width (maxH - minH)
       \<and> RowScored 0 \<in> set (snd (findBestCutPosition ctx width currentY maxH minH))
       \<and> minH \<le> fst (findBestCutPosition ctx width currentY maxH minH)
       \<and> fst (findBestCutPosition ctx width currentY maxH minH) < maxH"
proof -
  have scan: "\<not> int (canvas_height ctx) - currentY \<le> maxH" using assms(4) by simp
  from scanRows_trace [of "getImageData ctx 0 (currentY + minH) width (maxH - minH)" width minH "maxH - minH"
      0 maxH MAX_VALUE "[GetImageData 0 (currentY + minH) width (maxH - minH)]"] assms(2)
  obtain rows where rows: "snd (findBestCutPosition ctx width currentY maxH minH) =
      [GetImageData 0 (currentY + minH) width (maxH - minH)] @ rows" "rows \<noteq> []" "hd rows = RowScored 0"
    by (auto simp: findBestCutPosition_scan [OF scan])
  then have "RowScored 0 \<in> set rows" by (cases rows) auto
  with rows finalScore_first_row [of width "maxH - minH" ctx 0 "currentY + minH"]
    findBestCutPosition_below_max [OF scan assms(1,2,3)] assms
  show ?thesis by simp
qed

theorem scan_cut_below_max_witness:
  "(0::int) < 1 \<and> (1500::int) < 3000 \<and> (3000::int) < int (canvas_height page_seam) - 0
   \<and> fst (findBestCutPosition page_seam 1 0 3000 1500) = 1500
   \<and> hd (snd (findBestCutPosition page_seam 1 0 3000 1500)) = GetImageData 0 1500 1 1500
   \<and> fst (findBestCutPosition page_white 1 0 3000 1500) = 2996
   \<and> RowScored 0 \<in> set (snd (findBestCutPosition page_white 1 0 3000 1500))"
proof -
  have h: "(3000::int) < int (canvas_height page_seam) - 0" "(3000::int) < int (canvas_height page_white) - 0"
    by (simp_all add: page_seam_def page_white_def)
  from scan_cut_below_max [of 1 1500 3000 page_seam 0] scan_cut_below_max [of 1 1500 3000 page_white 0] h
  show ?thesis by (simp add: seam_cut1 white_cut)
qed

text \<open>
  C7, as the code has it. For an image of height 5000 the first boundary is \<open>(0, cutY)\<close>
  with \<open>1500 \<le> cutY \<le> 3000\<close>. When \<open>cutY \<ge> 2000\<close> the rest fits one slice and there are
  exactly two boundaries. When \<open>cutY < 2000\<close> the rest, \<open>5000 - cutY\<close>, exceeds 3000: it is
  scanned again and there are three boundaries.
\<close>

theorem height_5000_slices:
  assumes "canvas_height img = 5000"
    and "cutY = fst (findBestCutPosition img (int (canvas_width img)) 0 MAX_SLICE MIN_SLICE)"
    and "cut2 = fst (findBestCutPosition img (int (canvas_width img)) cutY MAX_SLICE MIN_SLICE)"
  shows "1500 \<le> cutY \<and> cutY \<le> 3000
       \<and> (2000 \<le> cutY \<longrightarrow> fst (sliceLoop img 0 [] []) = [(0, cutY), (cutY, 5000 - cutY)])
       \<and> (cutY < 2000 \<longrightarrow> 1500 \<le> cut2 \<and> cut2 \<le> 3000
            \<and> fst (sliceLoop img 0 [] []) = [(0, cutY), (cutY, cut2), (cutY + cut2, 5000 - cutY - cut2)])"
proof -
  let ?w = "int (canvas_width img)"
  have H: "int (canvas_height img) = 5000" using assms(1) by simp
  have r1: "MIN_SLICE \<le> cutY" "cutY \<le> MAX_SLICE"
    using findBestCutPosition_range [of img 0 MAX_SLICE MIN_SLICE ?w] H assms(2)
    by (simp_all add: MAX_SLICE_def MIN_SLICE_def)
  have step1: "sliceLoop img 0 [] [] =
      sliceLoop img cutY [(0, cutY)] (snd (findBestCutPosition img ?w 0 MAX_SLICE MIN_SLICE))"
    using sliceLoop_step [of 0 img "[]" "[]"] H assms(2) by simp
  have two: "fst (sliceLoop img 0 [] []) = [(0, cutY), (cutY, 5000 - cutY)]" if "2000 \<le> cutY"
  proof -
    have "findBestCutPosition img ?w cutY MAX_SLICE MIN_SLICE = (5000 - cutY, [])"
      using findBestCutPosition_rest [of img cutY MAX_SLICE ?w MIN_SLICE] H that
      by (simp add: MAX_SLICE_def)
    with r1 H show ?thesis
      by (simp add: step1 sliceLoop_step sliceLoop_stop MAX_SLICE_def)
  qed
  have three: "1500 \<le> cut2 \<and> cut2 \<le> 3000
      \<and> fst (sliceLoop img 0 [] []) = [(0, cutY), (cutY, cut2), (cutY + cut2, 5000 - cutY - cut2)]"
    if "cutY < 2000"
  proof -
    have r2: "MIN_SLICE \<le> cut2" "cut2 \<le> MAX_SLICE"
      using findBestCutPosition_range [of img cutY MAX_SLICE MIN_SLICE ?w] H assms(3) that
      by (simp_all add: MAX_SLICE_def MIN_SLICE_def)
    have step2: "sliceLoop img cutY [(0, cutY)] tr =
        sliceLoop img (cutY + cut2) [(0, cutY), (cutY, cut2)]
          (tr @ snd (findBestCutPosition img ?w cutY MAX_SLICE MIN_SLICE))" for tr
      using sliceLoop_step [of cutY img "[(0, cutY)]" tr] H assms(3) r1 by (simp add: MAX_SLICE_def)
    have "findBestCutPosition img ?w (cutY + cut2) MAX_SLICE MIN_SLICE = (5000 - (cutY + cut2), [])"
      using findBestCutPosition_rest [of img "cutY + cut2" MAX_SLICE ?w MIN_SLICE] H r1 r2
      by (simp add: MAX_SLICE_def MIN_SLICE_def)
    moreover have "cutY + cut2 < 5000" using that r2 by (simp add: MAX_SLICE_def)
    ultimately have "fst (sliceLoop img 0 [] []) = [(0, cutY), (cutY, cut2), (cutY + cut2, 5000 - cutY - cut2)]"
      using H by (simp add: step1 step2 sliceLoop_step sliceLoop_stop)
    with r2 show ?thesis by (simp add: MAX_SLICE_def MIN_SLICE_def)
  qed
  from r1 two three show ?thesis by (simp add: MAX_SLICE_def MIN_SLICE_def)
qed

theorem height_5000_slices_witness:
  "canvas_height page_white = 5000
   \<and> fst (sliceLoop page_white 0 [] []) = [(0, 2996), (2996, 5000 - 2996)]
   \<and> canvas_height page_seam = 5000
   \<and> fst (sliceLoop page_seam 0 [] []) = [(0, 1500), (1500, 2996), (1500 + 2996, 5000 - 1500 - 2996)]"
proof -
  have h: "canvas_height page_white = 5000" "canvas_height page_seam = 5000"
    "int (canvas_width page_white) = 1" "int (canvas_width page_seam) = 1"
    by (simp_all add: page_white_def page_seam_def)
  from height_5000_slices [OF h(1) refl refl] height_5000_slices [OF h(2) refl refl] h
  show ?thesis
    by (simp add: MAX_SLICE_def MIN_SLICE_def white_cut seam_cut1 seam_cut2)
qed

text \<open>
  Counterexample to C7 as stated: on the grey page of height 5000 whose row 1500 is white,
  the quietest row of the first window is its first one, so the first cut is 1500, the
  remaining 3500 rows are scanned again, and the segmentation has three boundaries.
\<close>

theorem height_5000_counterexample:
  "canvas_height page_seam = 5000
   \<and> fst (sliceLoop page_seam 0 [] []) = [(0, 1500), (1500, 2996), (4496, 504)]
   \<and> length (fst (sliceLoop page_seam 0 [] [])) \<noteq> 2"
  by (simp add: seam_slices) (simp add: page_seam_def)

section \<open>Properties of the JSON parser\<close>

lemma parse_string_unfold:
  "parse_string (c # cs) acc = Some (s, r) \<Longrightarrow>
     r = cs \<or> parse_string cs (c # acc) = Some (s, r)
     \<or> (\<exists>e r0 u. cs = e # r0 \<and> (parse_string r0 (u # acc) = Some (s, r)
                                    \<or> parse_string (drop 4 r0) (u # acc) = Some (s, r)))"
  apply (cases cs)
   apply (simp split: if_splits)
  apply (simp split: if_splits option.splits)
     apply blast+
  done

lemma parse_string_shorter: "parse_string cs acc = Some (s, r) \<Longrightarrow> length r < length cs"
proof (induction "length cs" arbitrary: cs acc rule: less_induct)
  case less
  show ?case
  proof (cases cs)
    case Nil
    with less.prems show ?thesis by simp
  next
    case (Cons c cs')
    from parse_string_unfold [OF less.prems [unfolded Cons]]
    consider "r = cs'" | "parse_string cs' (c # acc) = Some (s, r)"
      | e r0 u where "cs' = e # r0" "parse_string r0 (u # acc) = Some (s, r)"
      | e r0 u where "cs' = e # r0" "parse_string (drop 4 r0) (u # acc) = Some (s, r)"
      by blast
    then show ?thesis
    proof cases
      case 1
      then show ?thesis using Cons by simp
    next
      case 2
      from less.hyps [OF _ this] Cons show ?thesis by simp
    next
      case 3
      from less.hyps [OF _ 3(2)] Cons 3(1) show ?thesis by simp
    next
      case 4
      have "length (drop 4 r0) < length cs" using Cons 4(1) by simp
      from less.hyps [OF this 4(2)] Cons 4(1) show ?thesis by simp
    qed
  qed
qed

lemma dropWhile_Cons_shorter: "dropWhile P xs = y # ys \<Longrightarrow> length ys < length xs"
  using length_dropWhile_le [of P xs] by simp

lemma parse_digits_shorter: "parse_digits cs = Some (d, r) \<Longrightarrow> length r \<le> length cs"
  by (auto simp: parse_digits_def Let_def length_dropWhile_le split: if_splits)

lemma parse_number_shorter: "parse_number cs = Some (l, r) \<Longrightarrow> length r \<le> length cs"
  by (auto simp: parse_number_def Let_def split: if_splits list.splits option.splits prod.splits
      dest!: parse_digits_shorter)

lemma parse_scalar_shorter: "parse_scalar cs = Some (v, r) \<Longrightarrow> length r \<le> length cs"
  by (auto simp: parse_scalar_def split: if_splits list.splits option.splits
      dest!: parse_string_shorter parse_number_shorter)

lemma parse_key_shorter: "parse_key cs = Some (k, r) \<Longrightarrow> length r < length cs"
  by (auto simp: parse_key_def split: if_splits list.splits option.splits
      dest!: parse_string_shorter dropWhile_Cons_shorter)

lemma parse_value_shorter: "parse_value n cs = Some (v, r) \<Longrightarrow> length r \<le> length cs"
  and parse_elements_shorter: "parse_elements n cs es = Some (v, r) \<Longrightarrow> length r \<le> length cs"
  and parse_members_shorter: "parse_members n cs ms = Some (v, r) \<Longrightarrow> length r \<le> length cs"
proof (induction n cs and n cs es and n cs ms arbitrary: v r and v r and v r
    rule: parse_value_parse_elements_parse_members.induct)
  case (1 cs)
  then show ?case by simp
next
  case (2 n cs)
  show ?case
  proof (cases "dropWhile json_ws cs")
    case Nil
    with 2(3) show ?thesis by simp
  next
    case (Cons c x)
    note l1 = dropWhile_Cons_shorter [OF Cons]
    consider (obj) "c = 0x7B" | (arr) "c \<noteq> 0x7B" "c = 0x5B" | (scalar) "c \<noteq> 0x7B" "c \<noteq> 0x5B"
      by blast
    then show ?thesis
    proof cases
      case obj
      show ?thesis
      proof (cases "dropWhile json_ws x")
        case Nil
        with 2(3) Cons obj show ?thesis by simp
      next
        case c2: (Cons d y)
        note l2 = dropWhile_Cons_shorter [OF c2]
        show ?thesis
        proof (cases "d = 0x7D")
          case True
          with 2(3) Cons obj c2 l1 l2 show ?thesis by simp
        next
          case False
          with 2(3) Cons obj c2 have "parse_members n (d # y) [] = Some (v, r)" by simp
          from 2(1) [OF Cons obj c2 False this] l1 l2 show ?thesis by simp
        qed
      qed
    next
      case arr
      show ?thesis
      proof (cases "dropWhile json_ws x")
        case Nil
        with 2(3) Cons arr show ?thesis by simp
      next
        case c2: (Cons d y)
        note l2 = dropWhile_Cons_shorter [OF c2]
        show ?thesis
        proof (cases "d = 0x5D")
          case True
          with 2(3) Cons arr c2 l1 l2 show ?thesis by simp
        next
          case False
          with 2(3) Cons arr c2 have "parse_elements n (d # y) [] = Some (v, r)" by simp
          from 2(2) [OF Cons arr(1) arr(2) c2 False this] l1 l2 show ?thesis by simp
        qed
      qed
    next
      case scalar
      with 2(3) Cons have "parse_scalar (c # x) = Some (v, r)" by simp
      from parse_scalar_shorter [OF this] l1 show ?thesis by simp
    qed
  qed
next
  case (3 cs acc)
  then show ?case by simp
next
  case (4 n cs acc)
  from 4(3) obtain w x where pv: "parse_value n cs = Some (w, x)"
    by (auto split: option.splits)
  note l1 = 4(1) [OF pv]
  from 4(3) pv obtain c y where dw: "dropWhile json_ws x = c # y"
    by (auto split: list.splits)
  note l2 = dropWhile_Cons_shorter [OF dw]
  show ?case
  proof (cases "c = 0x2C")
    case True
    with 4(3) pv dw have "parse_elements n y (acc @ [w]) = Some (v, r)" by simp
    from 4(2) [OF pv refl dw True this] l1 l2 show ?thesis by simp
  next
    case False
    with 4(3) pv dw l1 l2 show ?thesis by (auto split: if_splits)
  qed
next
  case (5 cs acc)
  then show ?case by simp
next
  case (6 n cs acc)
  from 6(3) obtain k x where pk: "parse_key cs = Some (k, x)"
    by (auto split: option.splits)
  note l0 = parse_key_shorter [OF pk]
  from 6(3) pk obtain w x' where pv: "parse_value n x = Some (w, x')"
    by (auto split: option.splits)
  note l1 = 6(1) [OF pk refl pv]
  from 6(3) pk pv obtain c y where dw: "dropWhile json_ws x' = c # y"
    by (auto split: list.splits)
  note l2 = dropWhile_Cons_shorter [OF dw]
  show ?case
  proof (cases "c = 0x2C")
    case True
    with 6(3) pk pv dw have "parse_members n y (acc @ [(k, w)]) = Some (v, r)" by simp
    from 6(2) [OF pk refl pv refl dw True this] l0 l1 l2 show ?thesis by simp
  next
    case False
    with 6(3) pk pv dw l0 l1 l2 show ?thesis by (auto split: if_splits)
  qed
qed


lemma parse_budget_step:
  "(\<forall>cs. 2 * length cs + 2 \<le> n \<longrightarrow> parse_value (Suc n) cs = parse_value n cs)
   \<and> (\<forall>cs es. 2 * length cs + 3 \<le> n \<longrightarrow> parse_elements (Suc n) cs es = parse_elements n cs es)
   \<and> (\<forall>cs ms. 2 * length cs + 3 \<le> n \<longrightarrow> parse_members (Suc n) cs ms = parse_members n cs ms)"
proof (induction n)
  case 0
  show ?case by simp
next
  case (Suc m)
  then have V: "parse_value (Suc m) cs = parse_value m cs" if "2 * length cs + 2 \<le> m" for cs
    using that by blast
  from Suc have E: "parse_elements (Suc m) cs es = parse_elements m cs es" if "2 * length cs + 3 \<le> m" for cs es
    using that by blast
  from Suc have M: "parse_members (Suc m) cs ms = parse_members m cs ms" if "2 * length cs + 3 \<le> m" for cs ms
    using that by blast
  have v: "parse_value (Suc (Suc m)) cs = parse_value (Suc m) cs" if b: "2 * length cs + 2 \<le> Suc m" for cs
  proof (cases "dropWhile json_ws cs")
    case Nil
    show ?thesis by (simp only: parse_value.simps Nil list.case)
  next
    case (Cons c x)
    note l1 = dropWhile_Cons_shorter [OF Cons]
    show ?thesis
    proof (cases "dropWhile json_ws x")
      case Nil
      show ?thesis by (simp only: parse_value.simps Cons Nil list.case)
    next
      case c2: (Cons d y)
      note l2 = dropWhile_Cons_shorter [OF c2]
      have "2 * length (d # y) + 3 \<le> m" using b l1 l2 by simp
      then have "parse_members (Suc m) (d # y) [] = parse_members m (d # y) []"
        "parse_elements (Suc m) (d # y) [] = parse_elements m (d # y) []"
        by (simp_all only: M E)
      then show ?thesis
        by (simp only: parse_value.simps Cons c2 list.case)
    qed
  qed
  have e: "parse_elements (Suc (Suc m)) cs es = parse_elements (Suc m) cs es" if b: "2 * length cs + 3 \<le> Suc m" for cs es
  proof -
    have pv: "parse_value (Suc m) cs = parse_value m cs" using b by (intro V) simp
    show ?thesis
    proof (cases "parse_value m cs")
      case None
      with pv show ?thesis by simp
    next
      case (Some p)
      obtain w x where p: "p = (w, x)" by (cases p)
      from parse_value_shorter [of m cs w x] Some p have l1: "length x \<le> length cs" by simp
      show ?thesis
      proof (cases "dropWhile json_ws x")
        case Nil
        show ?thesis
          by (simp only: parse_elements.simps pv Some p Nil list.case option.case prod.case)
      next
        case (Cons c y)
        note l2 = dropWhile_Cons_shorter [OF Cons]
        have "2 * length y + 3 \<le> m" using b l1 l2 by simp
        then have "parse_elements (Suc m) y (es @ [w]) = parse_elements m y (es @ [w])"
          by (rule E)
        then show ?thesis
          by (simp only: parse_elements.simps pv Some p Cons list.case option.case prod.case)
      qed
    qed
  qed
  have mm: "parse_members (Suc (Suc m)) cs ms = parse_members (Suc m) cs ms" if b: "2 * length cs + 3 \<le> Suc m" for cs ms
  proof (cases "parse_key cs")
    case None
    then show ?thesis by simp
  next
    case (Some q)
    obtain k x where q: "q = (k, x)" by (cases q)
    from parse_key_shorter [of cs k x] Some q have l0: "length x < length cs" by simp
    have pv: "parse_value (Suc m) x = parse_value m x" using b l0 by (intro V) simp
    show ?thesis
    proof (cases "parse_value m x")
      case None
      with pv Some q show ?thesis by simp
    next
      case s2: (Some p)
      obtain w x' where p: "p = (w, x')" by (cases p)
      from parse_value_shorter [of m x w x'] s2 p have l1: "length x' \<le> length x" by simp
      show ?thesis
      proof (cases "dropWhile json_ws x'")
        case Nil
        show ?thesis
          by (simp only: parse_members.simps pv Some q s2 p Nil list.case option.case prod.case)
      next
        case (Cons c y)
        note l2 = dropWhile_Cons_shorter [OF Cons]
        have "2 * length y + 3 \<le> m" using b l0 l1 l2 by simp
        then have "parse_members (Suc m) y (ms @ [(k, w)]) = parse_members m y (ms @ [(k, w)])"
          by (rule M)
        then show ?thesis
          by (simp only: parse_members.simps pv Some q s2 p Cons list.case option.case prod.case)
      qed
    qed
  qed
  from v e mm show ?case by blast
qed

lemma parse_budget_enough:
  "2 * length cs + 2 \<le> n \<Longrightarrow> parse_value n cs = parse_value (2 * length cs + 2) cs"
proof (induction "n - (2 * length cs + 2)" arbitrary: n)
  case 0
  then show ?case by simp
next
  case (Suc d)
  then obtain m where n: "n = Suc m" "2 * length cs + 2 \<le> m" "d = m - (2 * length cs + 2)"
    by (cases n) auto
  from parse_budget_step [of m] n(2) have "parse_value (Suc m) cs = parse_value m cs" by blast
  with Suc.hyps(1) [OF n(3) n(2)] n(1) show ?case by simp
qed

text \<open>
  The budget never decides: with any larger budget the parser returns what
  \<open>JSON_parse\<close> returns, so \<open>None\<close> is always a syntax error.
\<close>

lemma JSON_parse_budget:
  "2 * length s + 2 \<le> n \<Longrightarrow>
   JSON_parse s =
     (case parse_value n s of
        None \<Rightarrow> None
      | Some (v, r) \<Rightarrow> if dropWhile json_ws r = [] then Some v else None)"
  by (simp add: JSON_parse_def parse_budget_enough [of s n])

section \<open>Properties of the dispatcher\<close>

lemma failover_done: "failover svc apiKeys slices i True attempts st = (True, attempts, st)"
  by (subst failover.simps) simp

lemma failover_exhausted:
  "length apiKeys \<le> attempts \<Longrightarrow> failover svc apiKeys slices i success attempts st = (success, attempts, st)"
  by (subst failover.simps) simp

lemma failover_step:
  assumes "attempts < length apiKeys"
  shows "failover svc apiKeys slices i False attempts st =
     (let keyIndex = (i + attempts) mod length apiKeys;
          currentKey = apiKeys ! keyIndex;
          st1 = st\<lparr>requests := requests st @ [(i, attempts, keyIndex, currentKey)]\<rparr>
      in case decode_response (svc i attempts currentKey (slices ! i)) of
           None \<Rightarrow> failover svc apiKeys slices i False (attempts + 1) (caught currentKey i st1)
         | Some blocks \<Rightarrow> (True, attempts, push_blocks blocks st1))"
  using assms
  by (subst failover.simps) (simp add: Let_def failover_done split: option.splits)

lemma push_blocks_simps [simp]:
  "allBlocks (push_blocks v st) = allBlocks st @ elements v"
  "requests (push_blocks v st) = requests st"
  "console (push_blocks v st) = console st"
  by (simp_all add: push_blocks_def elements_def split: json.splits)

lemma caught_simps [simp]:
  "allBlocks (caught k i st) = allBlocks st"
  "requests (caught k i st) = requests st"
  by (simp_all add: caught_def)

lemma failover_char:
  assumes "failover svc apiKeys slices i False attempts st = (succ, a', st')"
    and "attempts \<le> length apiKeys"
  shows "attempts \<le> a' \<and> a' \<le> length apiKeys
       \<and> requests st' = requests st @ tried apiKeys i attempts (if succ then a' + 1 else a')
       \<and> (succ \<longrightarrow> a' < length apiKeys
            \<and> (\<exists>v. decode_response (svc i a' (apiKeys ! ((i + a') mod length apiKeys)) (slices ! i)) = Some v
                  \<and> allBlocks st' = allBlocks st @ elements v))
       \<and> (\<not> succ \<longrightarrow> a' = length apiKeys \<and> allBlocks st' = allBlocks st)"
  using assms
proof (induction "length apiKeys - attempts" arbitrary: attempts st)
  case 0
  then have "length apiKeys \<le> attempts" by simp
  with 0 show ?case by (simp add: failover_exhausted tried_def)
next
  case (Suc d)
  then have lt: "attempts < length apiKeys" by simp
  let ?k = "(i + attempts) mod length apiKeys"
  let ?st1 = "st\<lparr>requests := requests st @ [(i, attempts, ?k, apiKeys ! ?k)]\<rparr>"
  show ?case
  proof (cases "decode_response (svc i attempts (apiKeys ! ?k) (slices ! i))")
    case None
    with Suc.prems lt have rec:
      "failover svc apiKeys slices i False (attempts + 1) (caught (apiKeys ! ?k) i ?st1) = (succ, a', st')"
      by (simp add: failover_step Let_def)
    have "d = length apiKeys - (attempts + 1)" using Suc.hyps(2) by simp
    from Suc.hyps(1) [OF this rec] lt
    show ?thesis
      by (auto simp: tried_def upt_conv_Cons)
  next
    case (Some blocks)
    with Suc.prems lt have "succ" "a' = attempts" "st' = push_blocks blocks ?st1"
      by (auto simp add: failover_step Let_def)
    with lt Some show ?thesis
      by (simp add: tried_def)
  qed
qed

lemma failover_state_indep:
  "fst (failover svc apiKeys slices i False attempts st) = fst (failover svc apiKeys slices i False attempts st2)
   \<and> fst (snd (failover svc apiKeys slices i False attempts st)) = fst (snd (failover svc apiKeys slices i False attempts st2))"
proof (induction "length apiKeys - attempts" arbitrary: attempts st st2)
  case 0
  then show ?case by (simp add: failover_exhausted)
next
  case (Suc d)
  then have lt: "attempts < length apiKeys" by simp
  have d: "d = length apiKeys - (attempts + 1)" using Suc.hyps(2) by simp
  show ?case
    using Suc.hyps(1) [OF d] lt
    by (simp add: failover_step Let_def split: option.splits)
qed

lemma failover_cong:
  assumes "\<And>a key d. svc i a key d = svc' i a key d"
  shows "failover svc apiKeys slices i False attempts st = failover svc' apiKeys slices i False attempts st"
proof (induction "length apiKeys - attempts" arbitrary: attempts st)
  case 0
  then show ?case by (simp add: failover_exhausted)
next
  case (Suc d)
  then have lt: "attempts < length apiKeys" by simp
  have d: "d = length apiKeys - (attempts + 1)" using Suc.hyps(2) by simp
  show ?case
    using Suc.hyps(1) [OF d] lt assms
    by (simp add: failover_step Let_def split: option.splits)
qed

lemma calls_made_le: "calls_made svc apiKeys slices i \<le> length apiKeys"
proof -
  obtain succ a st' where f: "failover svc apiKeys slices i False 0 dispatch0 = (succ, a, st')"
    by (cases "failover svc apiKeys slices i False 0 dispatch0") auto
  from failover_char [OF f] show ?thesis
    by (auto simp: calls_made_def f)
qed

lemma calls_made_pos: "0 < length apiKeys \<Longrightarrow> 0 < calls_made svc apiKeys slices i"
proof -
  assume pos: "0 < length apiKeys"
  obtain succ a st' where f: "failover svc apiKeys slices i False 0 dispatch0 = (succ, a, st')"
    by (cases "failover svc apiKeys slices i False 0 dispatch0") auto
  from failover_char [OF f] pos show ?thesis
    by (auto simp: calls_made_def f)
qed

lemma failover_requests:
  assumes "failover svc apiKeys slices i False 0 st = (succ, a', st')"
  shows "requests st' = requests st @ tried apiKeys i 0 (calls_made svc apiKeys slices i)"
proof -
  obtain succ0 a0 st0 where f: "failover svc apiKeys slices i False 0 dispatch0 = (succ0, a0, st0)"
    by (cases "failover svc apiKeys slices i False 0 dispatch0") auto
  from failover_state_indep [of svc apiKeys slices i 0 st dispatch0] assms f
  have "succ0 = succ" "a0 = a'" by simp_all
  with failover_char [OF assms] f show ?thesis
    by (simp add: calls_made_def)
qed

lemma processSlices_requests:
  "requests (processSlices svc apiKeys slices i st) =
     requests st @ concat (map (\<lambda>j. tried apiKeys j 0 (calls_made svc apiKeys slices j)) [i..<length slices])"
proof (induction "length slices - i" arbitrary: i st)
  case 0
  then show ?case by (subst processSlices.simps) simp
next
  case (Suc d)
  then have lt: "i < length slices" by simp
  have d: "d = length slices - (i + 1)" using Suc.hyps(2) by simp
  obtain succ a st' where f: "failover svc apiKeys slices i False 0 st = (succ, a, st')"
    by (cases "failover svc apiKeys slices i False 0 st") auto
  show ?case
    using Suc.hyps(1) [OF d] lt failover_requests [OF f]
    by (subst processSlices.simps) (simp add: f upt_conv_Cons)
qed

lemma filter_tried:
  "filter (\<lambda>r. fst r = i) (tried apiKeys j a n) = (if j = i then tried apiKeys j a n else [])"
  by (auto simp: tried_def filter_map comp_def)

lemma filter_concat_tried:
  "filter (\<lambda>r. fst r = i) (concat (map (\<lambda>j. tried apiKeys j 0 (n j)) [i0..<m])) =
     (if i0 \<le> i \<and> i < m then tried apiKeys i 0 (n i) else [])"
  by (induction m) (auto simp: filter_tried)

lemma slice_requests:
  "filter (\<lambda>r. fst r = i) (requests (processSlices svc apiKeys slices 0 dispatch0)) =
     (if i < length slices then tried apiKeys i 0 (calls_made svc apiKeys slices i) else [])"
  by (simp add: processSlices_requests filter_concat_tried dispatch0_def)

lemma mod_offset_inj:
  fixes i a b K :: nat
  assumes "a < K" "b < K" "(i + a) mod K = (i + b) mod K"
  shows "a = b"
proof -
  have aux: "x = y" if "x \<le> y" "y < K" "(i + x) mod K = (i + y) mod K" for x y :: nat
  proof -
    have "i + x \<le> i + y" using that by simp
    from mod_eq_dvd_iff_nat [OF this, of K] that(3)
    have "K dvd (i + y) - (i + x)" by simp
    then have "K dvd y - x" by simp
    moreover have "y - x < K" using that by simp
    ultimately have "y - x = 0" using nat_dvd_not_less by blast
    with that show ?thesis by simp
  qed
  show ?thesis
  proof (cases "a \<le> b")
    case True
    with aux assms show ?thesis by blast
  next
    case False
    then have "b \<le> a" by simp
    with aux [of b a] assms show ?thesis by simp
  qed
qed

lemma mod_offsets_distinct:
  "n \<le> K \<Longrightarrow> distinct (map (\<lambda>b. (i + b) mod K) [0..<n::nat])"
  by (auto simp: distinct_map inj_on_def dest: mod_offset_inj [rotated 2])

lemma map_key_tried:
  "map (\<lambda>(j, a, k, key). k) (tried apiKeys i 0 n) = map (\<lambda>b. (i + b) mod length apiKeys) [0..<n]"
  by (simp add: tried_def comp_def)

subsection \<open>Key selection and failover\<close>

text \<open>
  C3. In a run of the dispatcher every call made for slice \<open>i\<close> with attempt counter
  \<open>a\<close> uses the key at index \<open>(i + a) mod K\<close> of the pool, and the calls made for slice
  \<open>i\<close> are the same in two runs whose services answer alike for slice \<open>i\<close>, whatever
  they answer for the other slices.
\<close>

theorem credential_selection:
  "((i, a, k, key) \<in> set (requests (processSlices svc apiKeys slices 0 dispatch0))
      \<longrightarrow> k = (i + a) mod length apiKeys \<and> key = apiKeys ! k \<and> a < length apiKeys)
   \<and> ((\<forall>a key d. svc i a key d = svc' i a key d)
      \<longrightarrow> filter (\<lambda>r. fst r = i) (requests (processSlices svc apiKeys slices 0 dispatch0)) =
          filter (\<lambda>r. fst r = i) (requests (processSlices svc' apiKeys slices 0 dispatch0)))"
proof (intro conjI impI)
  assume mem: "(i, a, k, key) \<in> set (requests (processSlices svc apiKeys slices 0 dispatch0))"
  then have "(i, a, k, key) \<in> set (filter (\<lambda>r. fst r = i) (requests (processSlices svc apiKeys slices 0 dispatch0)))"
    by simp
  then have "(i, a, k, key) \<in> set (tried apiKeys i 0 (calls_made svc apiKeys slices i))"
    by (simp only: slice_requests split: if_splits) simp
  then have "k = (i + a) mod length apiKeys \<and> key = apiKeys ! k \<and> a < calls_made svc apiKeys slices i"
    by (auto simp: tried_def)
  with calls_made_le [of svc apiKeys slices i]
  show "k = (i + a) mod length apiKeys" "key = apiKeys ! k" "a < length apiKeys"
    by simp_all
next
  assume "\<forall>a key d. svc i a key d = svc' i a key d"
  then have "failover svc apiKeys slices i False 0 dispatch0 = failover svc' apiKeys slices i False 0 dispatch0"
    by (intro failover_cong) simp
  then have "calls_made svc apiKeys slices i = calls_made svc' apiKeys slices i"
    by (simp add: calls_made_def)
  then show "filter (\<lambda>r. fst r = i) (requests (processSlices svc apiKeys slices 0 dispatch0)) =
          filter (\<lambda>r. fst r = i) (requests (processSlices svc' apiKeys slices 0 dispatch0))"
    by (simp only: slice_requests)
qed

theorem credential_selection_witness:
  "(1, 1, 0, u16 ''key-AAAA'') \<in> set (requests (processSlices svc_mixed keys2 [(), (), ()] 0 dispatch0))
   \<and> (0::nat) = (1 + 1) mod length keys2 \<and> u16 ''key-AAAA'' = keys2 ! 0
   \<and> svc_mixed 2 0 (u16 ''key-AAAA'') () \<noteq> svc_down 2 0 (u16 ''key-AAAA'') ()
   \<and> filter (\<lambda>r. fst r = 1) (requests (processSlices svc_mixed keys2 [(), (), ()] 0 dispatch0)) =
     filter (\<lambda>r. fst r = 1) (requests (processSlices svc_down keys2 [(), (), ()] 0 dispatch0))"
proof -
  have mem: "(1, 1, 0, u16 ''key-AAAA'') \<in> set (requests (processSlices svc_mixed keys2 [(), (), ()] 0 dispatch0))"
    by code_simp
  have same: "\<forall>a key (d::unit). svc_mixed 1 a key d = svc_down 1 a key d"
    by (simp add: svc_down_def)
  have differ: "svc_mixed 2 0 (u16 ''key-AAAA'') () \<noteq> svc_down 2 0 (u16 ''key-AAAA'') ()"
    by (simp add: svc_down_def svc_mixed_def)
  from credential_selection [of 1 1 0 "u16 ''key-AAAA''" svc_mixed keys2 "[(), (), ()]" svc_down] mem same differ
  show ?thesis by simp
qed

text \<open>
  C9. The key indices used by the calls made for one slice are \<open>(i + a) mod K\<close> for
  \<open>a = 0, 1, \<dots>\<close> below the number of calls, which is at most \<open>K\<close>; they are pairwise
  distinct, so no key is used twice for the same slice.
\<close>

theorem keys_tried_once:
  "map (\<lambda>(j, a, k, key). k) (filter (\<lambda>r. fst r = i) (requests (processSlices svc apiKeys slices 0 dispatch0))) =
     map (\<lambda>a. (i + a) mod length apiKeys)
       [0..<length (filter (\<lambda>r. fst r = i) (requests (processSlices svc apiKeys slices 0 dispatch0)))]
   \<and> length (filter (\<lambda>r. fst r = i) (requests (processSlices svc apiKeys slices 0 dispatch0))) \<le> length apiKeys
   \<and> distinct (map (\<lambda>(j, a, k, key). k)
        (filter (\<lambda>r. fst r = i) (requests (processSlices svc apiKeys slices 0 dispatch0))))"
proof (cases "i < length slices")
  case True
  have len: "length (tried apiKeys i 0 (calls_made svc apiKeys slices i)) = calls_made svc apiKeys slices i"
    by (simp add: tried_def)
  show ?thesis
    using True calls_made_le [of svc apiKeys slices i]
      mod_offsets_distinct [of "calls_made svc apiKeys slices i" "length apiKeys" i]
    by (simp only: slice_requests if_True len map_key_tried)
next
  case False
  then show ?thesis by (simp only: slice_requests if_False) simp
qed

theorem keys_tried_once_witness:
  "map (\<lambda>(j, a, k, key). k) (filter (\<lambda>r. fst r = 1) (requests (processSlices svc_mixed keys2 [(), (), ()] 0 dispatch0))) = [1, 0]
   \<and> distinct [1, 0 :: nat]"
proof -
  have "filter (\<lambda>r. fst r = 1) (requests (processSlices svc_mixed keys2 [(), (), ()] 0 dispatch0)) =
      [(1, 0, 1, u16 ''key-BBBB''), (1, 1, 0, u16 ''key-AAAA'')]"
    by code_simp
  with keys_tried_once [of 1 svc_mixed keys2 "[(), (), ()]"] show ?thesis
    by simp
qed

text \<open>
  C4. The failover loop for a slice returns after at most \<open>K\<close> calls. It either succeeds,
  and \<open>allBlocks\<close> grows by exactly the elements of the list decoded from the successful
  response (by nothing when the decoded value is not a list), or it fails with all \<open>K\<close>
  keys used and \<open>allBlocks\<close> unchanged. Whatever happened to the other slices, every slice
  of the run gets its first call when the pool is not empty.
\<close>

theorem failover_outcome:
  "(failover svc apiKeys slices i False 0 st = (success, attempts, st') \<longrightarrow>
      attempts \<le> length apiKeys
      \<and> length (requests st') \<le> length (requests st) + length apiKeys
      \<and> (success \<longrightarrow>
           (\<exists>blocks. decode_response (svc i attempts (apiKeys ! ((i + attempts) mod length apiKeys)) (slices ! i)) = Some blocks
              \<and> allBlocks st' = allBlocks st @ (case blocks of JArr bs \<Rightarrow> bs | _ \<Rightarrow> [])))
      \<and> (\<not> success \<longrightarrow> attempts = length apiKeys \<and> allBlocks st' = allBlocks st))
   \<and> length (filter (\<lambda>r. fst r = i) (requests (processSlices svc apiKeys slices 0 dispatch0))) \<le> length apiKeys
   \<and> (i < length slices \<and> 0 < length apiKeys \<longrightarrow>
        (i, 0, i mod length apiKeys, apiKeys ! (i mod length apiKeys))
          \<in> set (requests (processSlices svc apiKeys slices 0 dispatch0)))"
proof (intro conjI impI)
  assume f: "failover svc apiKeys slices i False 0 st = (success, attempts, st')"
  note c = failover_char [OF f]
  show "attempts \<le> length apiKeys" using c by simp
  show "length (requests st') \<le> length (requests st) + length apiKeys"
    using c by (auto simp: tried_def)
  show "\<exists>blocks. decode_response (svc i attempts (apiKeys ! ((i + attempts) mod length apiKeys)) (slices ! i)) = Some blocks
              \<and> allBlocks st' = allBlocks st @ (case blocks of JArr bs \<Rightarrow> bs | _ \<Rightarrow> [])" if success
    using c that by (auto simp: elements_def)
  show "attempts = length apiKeys" if "\<not> success" using c that by simp
  show "allBlocks st' = allBlocks st" if "\<not> success" using c that by simp
next
  show "length (filter (\<lambda>r. fst r = i) (requests (processSlices svc apiKeys slices 0 dispatch0))) \<le> length apiKeys"
    using calls_made_le [of svc apiKeys slices i]
    by (simp only: slice_requests) (simp add: tried_def)
next
  assume a: "i < length slices \<and> 0 < length apiKeys"
  then have "0 < calls_made svc apiKeys slices i" by (simp add: calls_made_pos)
  then have "(i, 0, i mod length apiKeys, apiKeys ! (i mod length apiKeys))
      \<in> set (tried apiKeys i 0 (calls_made svc apiKeys slices i))"
    by (auto simp: tried_def image_iff intro!: bexI [of _ 0])
  with a have "(i, 0, i mod length apiKeys, apiKeys ! (i mod length apiKeys))
      \<in> set (filter (\<lambda>r. fst r = i) (requests (processSlices svc apiKeys slices 0 dispatch0)))"
    by (simp only: slice_requests if_True)
  then show "(i, 0, i mod length apiKeys, apiKeys ! (i mod length apiKeys))
      \<in> set (requests (processSlices svc apiKeys slices 0 dispatch0))"
    by simp
qed

theorem failover_outcome_witness:
  "failover svc_mixed keys2 [(), (), ()] 0 False 0 dispatch0 =
     (False, 2, \<lparr>allBlocks = [],
                 requests = [(0, 0, 0, u16 ''key-AAAA''), (0, 1, 1, u16 ''key-BBBB'')],
                 console = [Warn (u16 ''AAAA'') 1, Warn (u16 ''BBBB'') 1]\<rparr>)
   \<and> (2::nat) = length keys2
   \<and> failover svc_mixed keys2 [(), (), ()] 2 False 0 dispatch0 =
     (True, 0, \<lparr>allBlocks = [JObj [(u16 ''text'', JStr (u16 '' hi '')), (u16 ''category'', JStr (u16 ''thought''))]],
                requests = [(2, 0, 0, u16 ''key-AAAA'')],
                console = []\<rparr>)
   \<and> (2, 0, 0, u16 ''key-AAAA'') \<in> set (requests (processSlices svc_mixed keys2 [(), (), ()] 0 dispatch0))"
proof -
  have f0: "failover svc_mixed keys2 [(), (), ()] 0 False 0 dispatch0 =
     (False, 2, \<lparr>allBlocks = [],
                 requests = [(0, 0, 0, u16 ''key-AAAA''), (0, 1, 1, u16 ''key-BBBB'')],
                 console = [Warn (u16 ''AAAA'') 1, Warn (u16 ''BBBB'') 1]\<rparr>)"
    by code_simp
  have f2: "failover svc_mixed keys2 [(), (), ()] 2 False 0 dispatch0 =
     (True, 0, \<lparr>allBlocks = [JObj [(u16 ''text'', JStr (u16 '' hi '')), (u16 ''category'', JStr (u16 ''thought''))]],
                requests = [(2, 0, 0, u16 ''key-AAAA'')],
                console = []\<rparr>)"
    by code_simp
  have k: "length keys2 = 2" "keys2 ! 0 = u16 ''key-AAAA''"
    by (simp_all add: keys2_def)
  from failover_outcome [where svc = svc_mixed and apiKeys = keys2 and slices = "[(), (), ()]"
      and i = 0 and st = dispatch0 and success = False and attempts = 2] f0
  have "2 = length keys2" by simp
  moreover
  from failover_outcome [where svc = svc_mixed and apiKeys = keys2 and slices = "[(), (), ()]"
      and i = 2 and st = dispatch0 and success = True and attempts = 0] f2 k
  have "(2, 0, 0, u16 ''key-AAAA'') \<in> set (requests (processSlices svc_mixed keys2 [(), (), ()] 0 dispatch0))"
    by simp
  ultimately show ?thesis using f0 f2 by simp
qed

text \<open>
  C2, as the code has it. A response whose text, with the code fences removed and trimmed,
  parses to a value that is not a list ends the loop with success: one call, nothing
  appended to \<open>allBlocks\<close>, nothing printed. A response whose text does not parse makes
  \<open>JSON.parse\<close> throw inside the \<open>try\<close>: the \<open>catch\<close> prints the warning and increments
  \<open>attempts\<close>, and the loop goes on with the next key.
\<close>

theorem response_decoding:
  "attempts < length apiKeys
   \<and> keyIndex = (i + attempts) mod length apiKeys
   \<and> svc i attempts (apiKeys ! keyIndex) (slices ! i) = Response t
   \<and> jsonStr = trim (strip_fences (case t of None \<Rightarrow> u16 ''[]'' | Some s \<Rightarrow> s))
   \<longrightarrow>
     (JSON_parse jsonStr = Some blocks \<and> (\<forall>bs. blocks \<noteq> JArr bs) \<longrightarrow>
        failover svc apiKeys slices i False attempts st =
          (True, attempts, st\<lparr>requests := requests st @ [(i, attempts, keyIndex, apiKeys ! keyIndex)]\<rparr>))
     \<and> (JSON_parse jsonStr = None \<longrightarrow>
        failover svc apiKeys slices i False attempts st =
          failover svc apiKeys slices i False (attempts + 1)
            (st\<lparr>requests := requests st @ [(i, attempts, keyIndex, apiKeys ! keyIndex)],
                console := console st @
                  [Warn (drop (length (apiKeys ! keyIndex) - 4) (apiKeys ! keyIndex)) (i + 1)]\<rparr>))"
  by (cases blocks) (auto simp: failover_step Let_def decode_response_def push_blocks_def caught_def)

theorem response_decoding_witness:
  "failover svc_mixed keys2 [(), (), ()] 1 False 1 dispatch0 =
     (True, 1, dispatch0\<lparr>requests := [(1, 1, 0, u16 ''key-AAAA'')]\<rparr>)
   \<and> failover svc_mixed keys2 [(), (), ()] 1 False 0 dispatch0 =
     failover svc_mixed keys2 [(), (), ()] 1 False 1
       (dispatch0\<lparr>requests := [(1, 0, 1, u16 ''key-BBBB'')], console := [Warn (u16 ''BBBB'') 2]\<rparr>)"
proof -
  have k: "length keys2 = 2" "keys2 ! 0 = u16 ''key-AAAA''" "keys2 ! 1 = u16 ''key-BBBB''"
    by (simp_all add: keys2_def)
  have p1: "JSON_parse (trim (strip_fences (u16 ''{\"text\": \"x\"}''))) = Some (JObj [(u16 ''text'', JStr (u16 ''x''))])"
    by code_simp
  have p0: "JSON_parse (trim (strip_fences (u16 ''oops''))) = None"
    by code_simp
  have r1: "svc_mixed 1 1 (keys2 ! 0) ([(), (), ()] ! 1) = Response (Some (u16 ''{\"text\": \"x\"}''))"
    by (simp add: svc_mixed_def)
  have r0: "svc_mixed 1 0 (keys2 ! 1) ([(), (), ()] ! 1) = Response (Some (u16 ''oops''))"
    by (simp add: svc_mixed_def)
  have d: "drop (length (u16 ''key-BBBB'') - 4) (u16 ''key-BBBB'') = u16 ''BBBB''"
    by (simp add: u16_def)
  have a: "failover svc_mixed keys2 [(), (), ()] 1 False 1 dispatch0 =
     (True, 1, dispatch0\<lparr>requests := [(1, 1, 0, u16 ''key-AAAA'')]\<rparr>)"
    using response_decoding [of 1 keys2 0 1 svc_mixed "[(), (), ()]" "Some (u16 ''{\"text\": \"x\"}'')"
        "trim (strip_fences (u16 ''{\"text\": \"x\"}''))" "JObj [(u16 ''text'', JStr (u16 ''x''))]" dispatch0]
      k p1 r1
    by (simp add: dispatch0_def)
  have b: "failover svc_mixed keys2 [(), (), ()] 1 False 0 dispatch0 =
     failover svc_mixed keys2 [(), (), ()] 1 False 1
       (dispatch0\<lparr>requests := [(1, 0, 1, u16 ''key-BBBB'')], console := [Warn (u16 ''BBBB'') 2]\<rparr>)"
    using response_decoding [of 0 keys2 1 1 svc_mixed "[(), (), ()]" "Some (u16 ''oops'')"
        "trim (strip_fences (u16 ''oops''))" _ dispatch0]
      k p0 r0 d
    by (simp add: dispatch0_def numeral_2_eq_2)
  from a b show ?thesis by simp
qed

text \<open>
  Counterexample to C2 as stated: the first key's response for slice 1 is the text
  \<open>oops\<close>, which is not JSON. The attempt is not a success: a warning is printed and the
  other key is called.
\<close>

theorem malformed_response_counterexample:
  "svc_mixed 1 0 (u16 ''key-BBBB'') () = Response (Some (u16 ''oops''))
   \<and> JSON_parse (u16 ''oops'') = None
   \<and> failover svc_mixed keys2 [(), (), ()] 1 False 0 dispatch0 =
       (True, 1, \<lparr>allBlocks = [],
                  requests = [(1, 0, 1, u16 ''key-BBBB''), (1, 1, 0, u16 ''key-AAAA'')],
                  console = [Warn (u16 ''BBBB'') 2]\<rparr>)"
  by code_simp

section \<open>Properties of the formatting step\<close>

lemma category_value_inj: "category_value c = category_value d \<Longrightarrow> c = d"
  by (cases c; cases d; simp add: u16_def)

lemma category_value_eq: "(category_value c = category_value d) = (c = d)"
  using category_value_inj by auto

lemma formatText_known:
  "formatText (JStr s) (JStr (category_value c)) =
     Inr ((case c of SPEECH \<Rightarrow> [0x201C, 0x201D] @ u16 '': '' | THOUGHT \<Rightarrow> u16 ''(): ''
           | BOX \<Rightarrow> u16 ''[]: '' | NARRATION \<Rightarrow> u16 ''OT: '' | SMALL_TEXT \<Rightarrow> u16 ''ST: ''
           | SFX \<Rightarrow> u16 ''SFX: '' | SYSTEM \<Rightarrow> u16 ''{}: '' | SCREAM \<Rightarrow> u16 '':: ''
           | LINKED \<Rightarrow> u16 ''//: '') @ trim s)"
  unfolding formatText_def Let_def json.case json.inject category_value_eq
  by (cases c) simp_all

lemma formatText_unknown:
  "\<forall>c. category \<noteq> JStr (category_value c) \<Longrightarrow> formatText (JStr s) category = Inr (trim s)"
  unfolding formatText_def Let_def json.case
  by (simp only: if_False)

lemma not_a_category:
  "s \<notin> set (map category_value [SPEECH, THOUGHT, BOX, NARRATION, SMALL_TEXT, SFX, SYSTEM, SCREAM, LINKED])
   \<Longrightarrow> \<forall>c. JStr s \<noteq> JStr (category_value c)"
proof
  fix c
  assume "s \<notin> set (map category_value [SPEECH, THOUGHT, BOX, NARRATION, SMALL_TEXT, SFX, SYSTEM, SCREAM, LINKED])"
  then show "JStr s \<noteq> JStr (category_value c)"
    by (cases c) (simp_all del: category_value.simps)
qed

text \<open>
  \<open>formatText\<close> on a string never throws. Each of the nine members of
  \<open>TextBlockCategory\<close>, compared by its string value, yields its fixed prefix followed by
  the trimmed text, and every other category value yields the trimmed text alone.
\<close>

lemma formatText_cases:
  "formatText (JStr s) (JStr (category_value SPEECH)) = Inr ([0x201C, 0x201D] @ u16 '': '' @ trim s)
   \<and> formatText (JStr s) (JStr (category_value THOUGHT)) = Inr (u16 ''(): '' @ trim s)
   \<and> formatText (JStr s) (JStr (category_value BOX)) = Inr (u16 ''[]: '' @ trim s)
   \<and> formatText (JStr s) (JStr (category_value NARRATION)) = Inr (u16 ''OT: '' @ trim s)
   \<and> formatText (JStr s) (JStr (category_value SMALL_TEXT)) = Inr (u16 ''ST: '' @ trim s)
   \<and> formatText (JStr s) (JStr (category_value SFX)) = Inr (u16 ''SFX: '' @ trim s)
   \<and> formatText (JStr s) (JStr (category_value SYSTEM)) = Inr (u16 ''{}: '' @ trim s)
   \<and> formatText (JStr s) (JStr (category_value SCREAM)) = Inr (u16 '':: '' @ trim s)
   \<and> formatText (JStr s) (JStr (category_value LINKED)) = Inr (u16 ''//: '' @ trim s)
   \<and> ((\<forall>c. category \<noteq> JStr (category_value c)) \<longrightarrow> formatText (JStr s) category = Inr (trim s))"
  unfolding formatText_known using formatText_unknown by simp

text \<open>
  C6. Of the nine categories the program asks the service for (speech, thought, box,
  narration, small_text, sfx, system, scream, linked), eight get their fixed prefix before
  the trimmed text. The ninth, \<open>sfx\<close>, does not: the member \<open>SFX\<close> of the enum has the
  string value \<open>SFX\<close>, the \<open>switch\<close> compares with \<open>===\<close>, and a block of category
  \<open>sfx\<close> falls to the \<open>default\<close> branch and comes out as the bare trimmed text. Only the
  spelling \<open>SFX\<close>, which the instruction does not ask for, gets the prefix \<open>SFX: \<close>.
\<close>

theorem sfx_prefix_missing:
  "map (\<lambda>c. formatText (JStr (u16 '' Boom! '')) (JStr c)) prompt_categories =
     [Inr ([0x201C, 0x201D] @ u16 '': Boom!''), Inr (u16 ''(): Boom!''), Inr (u16 ''[]: Boom!''),
      Inr (u16 ''OT: Boom!''), Inr (u16 ''ST: Boom!''), Inr (u16 ''Boom!''),
      Inr (u16 ''{}: Boom!''), Inr (u16 '':: Boom!''), Inr (u16 ''//: Boom!'')]
   \<and> prompt_categories ! 5 = u16 ''sfx''
   \<and> formatText (JStr (u16 '' Boom! '')) (JStr (u16 ''sfx'')) = Inr (u16 ''Boom!'')
   \<and> formatText (JStr (u16 '' Boom! '')) (JStr (category_value SFX)) = Inr (u16 ''SFX: Boom!'')"
  by code_simp

text \<open>
  C5, as the code has it, for a block that is not \<open>null\<close> and whose \<open>text\<close> is a string
  or falsy. When its \<open>category\<close> is absent or falsy (\<open>undefined\<close>, \<open>null\<close>, \<open>false\<close>, a
  number that is zero as a double, the empty string) the block is formatted as speech.
  When its \<open>category\<close> is any other value that is none of the nine categories (neither
  the string of a member of the enum nor a category the instruction names) it is passed to
  \<open>formatText\<close> as it is and the block comes out as the bare trimmed text, without prefix.
\<close>

theorem category_default:
  assumes "get_prop b (u16 ''text'') = Inr tx"
    and "js_or tx (JStr []) = JStr s"
    and "get_prop b (u16 ''category'') = Inr cat"
  shows "(\<not> truthy cat \<longrightarrow> formatBlock b = Inr ([0x201C, 0x201D] @ u16 '': '' @ trim s @ [0x0A]))
       \<and> (truthy cat \<and> (\<forall>c. cat \<noteq> Some (JStr (category_value c)))
            \<and> cat \<notin> set (map (\<lambda>p. Some (JStr p)) prompt_categories) \<longrightarrow>
            formatBlock b = Inr (trim s @ [0x0A]))"
proof (intro conjI impI)
  assume "\<not> truthy cat"
  then have "js_or cat (JStr (category_value SPEECH)) = JStr (category_value SPEECH)"
    by (simp add: js_or_def)
  with assms show "formatBlock b = Inr ([0x201C, 0x201D] @ u16 '': '' @ trim s @ [0x0A])"
    by (simp add: formatBlock_def formatText_known del: category_value.simps)
next
  assume a: "truthy cat \<and> (\<forall>c. cat \<noteq> Some (JStr (category_value c)))
      \<and> cat \<notin> set (map (\<lambda>p. Some (JStr p)) prompt_categories)"
  then obtain v where v: "cat = Some v" by (cases cat) auto
  with a have "js_or cat (JStr (category_value SPEECH)) = v" "\<forall>c. v \<noteq> JStr (category_value c)"
    by (simp_all add: js_or_def)
  with assms show "formatBlock b = Inr (trim s @ [0x0A])"
    by (simp add: formatBlock_def formatText_unknown del: category_value.simps)
qed

theorem category_default_witness:
  "formatBlock (JObj [(u16 ''text'', JStr (u16 '' hi ''))]) = Inr ([0x201C, 0x201D] @ u16 '': hi'' @ [0x0A])
   \<and> JSON_parse (u16 ''{\"text\": \" hi \", \"category\": 1e-400}'') =
       Some (JObj [(u16 ''text'', JStr (u16 '' hi '')), (u16 ''category'', JNum (u16 ''1e-400''))])
   \<and> formatBlock (JObj [(u16 ''text'', JStr (u16 '' hi '')), (u16 ''category'', JNum (u16 ''1e-400''))]) =
       Inr ([0x201C, 0x201D] @ u16 '': hi'' @ [0x0A])
   \<and> formatBlock (JObj [(u16 ''text'', JStr (u16 '' hi '')), (u16 ''category'', JNum (u16 ''3e-324''))]) =
       Inr (u16 ''hi'' @ [0x0A])
   \<and> formatBlock (JObj [(u16 ''text'', JStr (u16 '' hi '')), (u16 ''category'', JStr (u16 ''whisper''))]) =
       Inr (u16 ''hi'' @ [0x0A])"
proof -
  let ?t = "(u16 ''text'', JStr (u16 '' hi ''))"
  have t: "trim (u16 '' hi '') = u16 ''hi''"
    by (simp add: trim_def u16_def isWhiteSpace_def)
  have p: "JSON_parse (u16 ''{\"text\": \" hi \", \"category\": 1e-400}'') =
       Some (JObj [(u16 ''text'', JStr (u16 '' hi '')), (u16 ''category'', JNum (u16 ''1e-400''))])"
    by code_simp
  have z: "\<not> truthy (Some (JNum (u16 ''1e-400'')))"
    by (simp add: num_is_zero_def digits_value_def is_digit_def u16_def Let_def)
  have nz: "truthy (Some (JNum (u16 ''3e-324'')))"
    by (simp add: num_is_zero_def digits_value_def is_digit_def u16_def Let_def)
  have g: "get_prop (JObj [?t]) (u16 ''text'') = Inr (Some (JStr (u16 '' hi '')))"
    "get_prop (JObj [?t]) (u16 ''category'') = Inr None"
    "get_prop (JObj [?t, (u16 ''category'', c)]) (u16 ''text'') = Inr (Some (JStr (u16 '' hi '')))"
    "get_prop (JObj [?t, (u16 ''category'', c)]) (u16 ''category'') = Inr (Some c)" for c
    by (simp_all add: u16_def)
  have o: "js_or (Some (JStr (u16 '' hi ''))) (JStr []) = JStr (u16 '' hi '')"
    by (simp add: js_or_def u16_def)
  have nw: "\<forall>c. Some (JStr (u16 ''whisper'')) \<noteq> Some (JStr (category_value c))"
    using not_a_category [of "u16 ''whisper''"] by (simp add: u16_def)
  have pw: "Some (JStr (u16 ''whisper'')) \<notin> set (map (\<lambda>p. Some (JStr p)) prompt_categories)"
    by (simp add: prompt_categories_def u16_def)
  have tw: "truthy (Some (JStr (u16 ''whisper'')))"
    by (simp add: u16_def)
  have pn: "Some (JNum (u16 ''3e-324'')) \<notin> set (map (\<lambda>p. Some (JStr p)) prompt_categories)"
    by (simp add: prompt_categories_def)
  have 1: "formatBlock (JObj [?t]) = Inr ([0x201C, 0x201D] @ u16 '': '' @ trim (u16 '' hi '') @ [0x0A])"
    using category_default [OF g(1) o g(2)] by simp
  have 2: "formatBlock (JObj [?t, (u16 ''category'', JNum (u16 ''1e-400''))]) =
      Inr ([0x201C, 0x201D] @ u16 '': '' @ trim (u16 '' hi '') @ [0x0A])"
    using category_default [OF g(3) o g(4), of "JNum (u16 ''1e-400'')"] z by blast
  have 3: "formatBlock (JObj [?t, (u16 ''category'', JNum (u16 ''3e-324''))]) =
      Inr (trim (u16 '' hi '') @ [0x0A])"
    using category_default [OF g(3) o g(4), of "JNum (u16 ''3e-324'')"] nz pn by blast
  have 4: "formatBlock (JObj [?t, (u16 ''category'', JStr (u16 ''whisper''))]) =
      Inr (trim (u16 '' hi '') @ [0x0A])"
    using category_default [OF g(3) o g(4), of "JStr (u16 ''whisper'')"] nw pw tw by blast
  from 1 2 3 4 p show ?thesis
    by (simp only: t) (simp add: u16_def)
qed

text \<open>
  Counterexample to C5 as stated: the category \<open>whisper\<close> is none of the nine, and the
  block is not formatted as a speech block would be.
\<close>

theorem unknown_category_counterexample:
  "u16 ''whisper'' \<notin> set (map category_value [SPEECH, THOUGHT, BOX, NARRATION, SMALL_TEXT, SFX, SYSTEM, SCREAM, LINKED])
   \<and> u16 ''whisper'' \<notin> set prompt_categories
   \<and> formatBlock (JObj [(u16 ''text'', JStr (u16 ''hi'')), (u16 ''category'', JStr (u16 ''whisper''))]) =
       Inr (u16 ''hi'' @ [0x0A])
   \<and> formatBlock (JObj [(u16 ''text'', JStr (u16 ''hi'')), (u16 ''category'', JStr (u16 ''speech''))]) =
       Inr ([0x201C, 0x201D] @ u16 '': hi'' @ [0x0A])"
  by code_simp

section \<open>A whole run\<close>

text \<open>
  The white page with the service above: the records of slice 0 come first, then those of
  slice 1. The record of category \<open>sfx\<close> comes out without the prefix \<open>SFX: \<close>, as
  \<open>sfx_prefix_missing\<close> shows.
\<close>

lemma processManhwa_example:
  "processManhwa svc_page page_white keys2 =
     Inr ([0x201C, 0x201D] @ u16 '': Hi'' @ [0x0A] @ u16 ''BOOM'' @ [0x0A] @ u16 ''(): Hello'' @ [0x0A])"
proof -
  have d: "allBlocks (processSlices svc_page keys2 [(0, 2996), (2996, 2004)] 0 dispatch0) =
      [JObj [(u16 ''text'', JStr (u16 ''Hi'')), (u16 ''category'', JStr (u16 ''speech''))],
       JObj [(u16 ''text'', JStr (u16 '' BOOM '')), (u16 ''category'', JStr (u16 ''sfx''))],
       JObj [(u16 ''text'', JStr (u16 '' Hello '')), (u16 ''category'', JStr (u16 ''thought''))]]"
    by code_simp
  have f: "formatOutput
      [JObj [(u16 ''text'', JStr (u16 ''Hi'')), (u16 ''category'', JStr (u16 ''speech''))],
       JObj [(u16 ''text'', JStr (u16 '' BOOM '')), (u16 ''category'', JStr (u16 ''sfx''))],
       JObj [(u16 ''text'', JStr (u16 '' Hello '')), (u16 ''category'', JStr (u16 ''thought''))]] [] =
      Inr ([0x201C, 0x201D] @ u16 '': Hi'' @ [0x0A] @ u16 ''BOOM'' @ [0x0A] @ u16 ''(): Hello'' @ [0x0A])"
    by code_simp
  show ?thesis
    by (simp only: processManhwa_def Let_def white_slices d f)
qed

end
